theory Spec2Isabelle
  imports Main
begin

unbundle bit_operations_syntax

section \<open>The device registry of the Fadecandy server (server/src/fcserver.cpp)\<close>

text \<open>
  The model follows \<^verbatim>\<open>FCServer\<close>: the object's fields are a record, every member
  function takes the server state and returns the new one. Calls into collaborators
  whose code is outside the file (the device drivers, the log stream, the mutex) and the
  mutations of the device vector are recorded, in program order, in the field
  \<open>actions\<close>, so that statements about which call happens, how often and in which
  order are statements about this list.
\<close>

subsection \<open>Data\<close>

text \<open>A \<^verbatim>\<open>libusb_device *\<close> is compared by identity only; a number stands for it.\<close>

type_synonym libusb_device = nat

text \<open>The two driver classes \<^verbatim>\<open>usbDeviceArrived\<close> knows.\<close>

datatype driver = FCDevice | EnttecDMXDevice

text \<open>
  An object made by \<^verbatim>\<open>new FCDevice(device, mVerbose)\<close> or
  \<^verbatim>\<open>new EnttecDMXDevice(device, mVerbose)\<close>: \<open>objid\<close> is the identity of the
  allocation (two objects made by two \<^verbatim>\<open>new\<close> differ even for one native device),
  \<open>getDevice\<close> the native device it was constructed with.
\<close>

record USBDevice =
  objid :: nat
  getDevice :: libusb_device
  driver :: driver

text \<open>The lines written to \<^verbatim>\<open>std::clog\<close>.\<close>

datatype log_line =
    Waiting_for_Windows USBDevice
  | Error_opening USBDevice int
  | Attached USBDevice
  | No_matching_configuration USBDevice
  | Removed USBDevice
  | Error_polling int
  | Error_handling_events int

text \<open>
  What the server does that is visible outside a member function. \<open>'v\<close> is
  \<^verbatim>\<open>rapidjson::Value\<close> (the colour specification and the device configuration
  entries, both opaque to the server), \<open>'m\<close> is \<^verbatim>\<open>OPCSink::Message\<close>.
\<close>

datatype ('v, 'm) action =
    Lock
  | Unlock
  | Probe driver libusb_device
  | New USBDevice
  | Open USBDevice
  | ProbeAfterOpening USBDevice
  | MatchConfiguration USBDevice 'v
  | WriteColorCorrection USBDevice 'v
  | Push_back USBDevice
  | Erase USBDevice
  | Delete USBDevice
  | WriteMessage USBDevice 'm
  | Flush USBDevice
  | Clog log_line
  | Sleep_for nat

text \<open>
  The fields of \<^verbatim>\<open>FCServer\<close> the member functions below read or write.
  \<open>win32\<close> stands for the preprocessor symbol \<^verbatim>\<open>_WIN32\<close>, \<open>heap_next\<close> for the
  allocator (the identity the next \<^verbatim>\<open>new\<close> returns).
\<close>

record ('v, 'm) FCServer =
  mColor :: 'v
  mDevices :: "'v list"
  mVerbose :: bool
  mUSBDevices :: "USBDevice list"
  win32 :: bool
  heap_next :: nat
  actions :: "('v, 'm) action list"

text \<open>
  The behaviour of the driver classes, which are not part of the file: the static
  probes, and the results of the virtual calls on a device object. They are parameters
  of every operation that makes such a call.
\<close>

record 'v drivers =
  FCDevice_probe :: "libusb_device \<Rightarrow> bool"
  EnttecDMXDevice_probe :: "libusb_device \<Rightarrow> bool"
  dev_open :: "USBDevice \<Rightarrow> int"
  probeAfterOpening :: "USBDevice \<Rightarrow> bool"
  matchConfiguration :: "USBDevice \<Rightarrow> 'v \<Rightarrow> bool"

subsection \<open>Recording an action\<close>

definition act :: "('v, 'm) action \<Rightarrow> ('v, 'm) FCServer \<Rightarrow> ('v, 'm) FCServer" where
  "act a s = s\<lparr>actions := actions s @ [a]\<rparr>"

definition clog_verbose :: "log_line \<Rightarrow> ('v, 'm) FCServer \<Rightarrow> ('v, 'm) FCServer" where
  "clog_verbose l s = (if mVerbose s then act (Clog l) s else s)"

subsection \<open>\<^verbatim>\<open>FCServer::usbDeviceArrived\<close>\<close>

definition LIBUSB_ERROR_NOT_FOUND :: int where
  "LIBUSB_ERROR_NOT_FOUND = - 5"

definition LIBUSB_ERROR_NOT_SUPPORTED :: int where
  "LIBUSB_ERROR_NOT_SUPPORTED = - 12"

text \<open>The \<^verbatim>\<open>switch (r)\<close> of the failed open, with its \<^verbatim>\<open>#ifdef _WIN32\<close> cases.\<close>

definition open_error_line :: "bool \<Rightarrow> USBDevice \<Rightarrow> int \<Rightarrow> log_line" where
  "open_error_line w dev r =
     (if w \<and> (r = LIBUSB_ERROR_NOT_FOUND \<or> r = LIBUSB_ERROR_NOT_SUPPORTED)
      then Waiting_for_Windows dev else Error_opening dev r)"

text \<open>\<^verbatim>\<open>delete dev\<close>.\<close>

definition delete_dev :: "USBDevice \<Rightarrow> ('v, 'm) FCServer \<Rightarrow> ('v, 'm) FCServer" where
  "delete_dev dev s = act (Delete dev) s"

text \<open>\<^verbatim>\<open>dev = new D(device, mVerbose)\<close>: the object, and the state after the allocation.\<close>

definition new_dev :: "driver \<Rightarrow> libusb_device \<Rightarrow> ('v, 'm) FCServer \<Rightarrow> USBDevice" where
  "new_dev d device s = \<lparr>objid = heap_next s, getDevice = device, driver = d\<rparr>"

definition alloc :: "driver \<Rightarrow> libusb_device \<Rightarrow> ('v, 'm) FCServer \<Rightarrow> ('v, 'm) FCServer" where
  "alloc d device s = act (New (new_dev d device s)) (s\<lparr>heap_next := Suc (heap_next s)\<rparr>)"

text \<open>
  The loop \<^verbatim>\<open>for (unsigned i = 0; i < mDevices.Size(); ++i)\<close> over the entries that are
  left: the first entry the device matches registers it (colour correction, then
  \<^verbatim>\<open>push_back\<close>) and returns; when the entries are used up the device is deleted.
\<close>

fun match_loop ::
  "'v drivers \<Rightarrow> USBDevice \<Rightarrow> 'v list \<Rightarrow> ('v, 'm) FCServer \<Rightarrow> ('v, 'm) FCServer" where
  "match_loop drv dev [] s = delete_dev dev (clog_verbose (No_matching_configuration dev) s)"
| "match_loop drv dev (c # cs) s =
     (let s1 = act (MatchConfiguration dev c) s in
      if matchConfiguration drv dev c then
        (let s2 = act (WriteColorCorrection dev (mColor s1)) s1;
             s3 = act (Push_back dev) (s2\<lparr>mUSBDevices := mUSBDevices s2 @ [dev]\<rparr>)
         in clog_verbose (Attached dev) s3)
      else match_loop drv dev cs s1)"

text \<open>The function from \<^verbatim>\<open>int r = dev->open()\<close> on.\<close>

definition open_and_match ::
  "'v drivers \<Rightarrow> USBDevice \<Rightarrow> ('v, 'm) FCServer \<Rightarrow> ('v, 'm) FCServer" where
  "open_and_match drv dev s =
     (let r = dev_open drv dev; s1 = act (Open dev) s in
      if r < 0 then delete_dev dev (clog_verbose (open_error_line (win32 s1) dev r) s1)
      else
        (let s2 = act (ProbeAfterOpening dev) s1 in
         if \<not> probeAfterOpening drv dev then delete_dev dev s2
         else match_loop drv dev (mDevices s2) s2))"

definition usbDeviceArrived ::
  "'v drivers \<Rightarrow> libusb_device \<Rightarrow> ('v, 'm) FCServer \<Rightarrow> ('v, 'm) FCServer" where
  "usbDeviceArrived drv device s =
     (let s1 = act (Probe FCDevice device) s in
      if FCDevice_probe drv device then
        open_and_match drv (new_dev FCDevice device s1) (alloc FCDevice device s1)
      else
        (let s2 = act (Probe EnttecDMXDevice device) s1 in
         if EnttecDMXDevice_probe drv device then
           open_and_match drv (new_dev EnttecDMXDevice device s2) (alloc EnttecDMXDevice device s2)
         else s2))"

text \<open>
  Read off the source: the driver class whose static probe accepts the native device
  (the Fadecandy probe is asked first).
\<close>

definition probed_driver :: "'v drivers \<Rightarrow> libusb_device \<Rightarrow> driver option" where
  "probed_driver drv device =
     (if FCDevice_probe drv device then Some FCDevice
      else if EnttecDMXDevice_probe drv device then Some EnttecDMXDevice
      else None)"

text \<open>
  The outcome of an arrival: \<open>accepted drv device s\<close> gives the object that is
  registered, if one is.
\<close>

definition accepted :: "'v drivers \<Rightarrow> libusb_device \<Rightarrow> ('v, 'm) FCServer \<Rightarrow> USBDevice option" where
  "accepted drv device s =
     (case probed_driver drv device of
        None \<Rightarrow> None
      | Some d \<Rightarrow>
          (let dev = new_dev d device s in
           if 0 \<le> dev_open drv dev \<and> probeAfterOpening drv dev
              \<and> list_ex (matchConfiguration drv dev) (mDevices s)
           then Some dev else None))"

subsection \<open>\<^verbatim>\<open>FCServer::usbDeviceLeft\<close>\<close>

text \<open>
  \<^verbatim>\<open>usbDeviceLeft(std::vector<USBDevice*>::iterator iter)\<close>, the iterator given as
  the index of the slot it points to. The callers below pass an index inside the
  vector only (past it \<^verbatim>\<open>erase\<close> is undefined, see \<open>removed_loop\<close>).
\<close>

definition usbDeviceLeft_iter :: "nat \<Rightarrow> ('v, 'm) FCServer \<Rightarrow> ('v, 'm) FCServer" where
  "usbDeviceLeft_iter i s =
     (let dev = mUSBDevices s ! i;
          s1 = clog_verbose (Removed dev) s;
          s2 = act (Erase dev)
                 (s1\<lparr>mUSBDevices := take i (mUSBDevices s1) @ drop (Suc i) (mUSBDevices s1)\<rparr>)
      in delete_dev dev s2)"

text \<open>
  \<^verbatim>\<open>usbDeviceLeft(libusb_device *device)\<close>: the loop over the slots from \<open>i\<close> on
  (\<open>devs\<close> is what they hold), which stops at the first device with that native handle.
\<close>

fun usbDeviceLeft_loop ::
  "libusb_device \<Rightarrow> USBDevice list \<Rightarrow> nat \<Rightarrow> ('v, 'm) FCServer \<Rightarrow> ('v, 'm) FCServer" where
  "usbDeviceLeft_loop device [] i s = s"
| "usbDeviceLeft_loop device (dev # devs) i s =
     (if getDevice dev = device then usbDeviceLeft_iter i s
      else usbDeviceLeft_loop device devs (Suc i) s)"

definition usbDeviceLeft :: "libusb_device \<Rightarrow> ('v, 'm) FCServer \<Rightarrow> ('v, 'm) FCServer" where
  "usbDeviceLeft device s = usbDeviceLeft_loop device (mUSBDevices s) 0 s"

subsection \<open>\<^verbatim>\<open>FCServer::cbMessage\<close>\<close>

fun write_loop :: "'m \<Rightarrow> USBDevice list \<Rightarrow> ('v, 'm) FCServer \<Rightarrow> ('v, 'm) FCServer" where
  "write_loop msg [] s = s"
| "write_loop msg (dev # devs) s = write_loop msg devs (act (WriteMessage dev msg) s)"

definition cbMessage :: "'m \<Rightarrow> ('v, 'm) FCServer \<Rightarrow> ('v, 'm) FCServer" where
  "cbMessage msg s =
     (let s1 = act Lock s;
          s2 = write_loop msg (mUSBDevices s1) s1
      in act Unlock s2)"

subsection \<open>\<^verbatim>\<open>FCServer::cbHotplug\<close>\<close>

definition LIBUSB_HOTPLUG_EVENT_DEVICE_ARRIVED :: int where
  "LIBUSB_HOTPLUG_EVENT_DEVICE_ARRIVED = 1"

definition LIBUSB_HOTPLUG_EVENT_DEVICE_LEFT :: int where
  "LIBUSB_HOTPLUG_EVENT_DEVICE_LEFT = 2"

text \<open>The callback always returns \<^verbatim>\<open>false\<close>; the model returns the state only.\<close>

definition cbHotplug ::
  "'v drivers \<Rightarrow> libusb_device \<Rightarrow> int \<Rightarrow> ('v, 'm) FCServer \<Rightarrow> ('v, 'm) FCServer" where
  "cbHotplug drv device event s =
     (let s1 = act Lock s;
          s2 = (if event AND LIBUSB_HOTPLUG_EVENT_DEVICE_ARRIVED \<noteq> 0
                then usbDeviceArrived drv device s1 else s1);
          s3 = (if event AND LIBUSB_HOTPLUG_EVENT_DEVICE_LEFT \<noteq> 0
                then usbDeviceLeft device s2 else s2)
      in act Unlock s3)"

subsection \<open>One round of \<^verbatim>\<open>FCServer::mainLoop\<close>\<close>

fun flush_loop :: "USBDevice list \<Rightarrow> ('v, 'm) FCServer \<Rightarrow> ('v, 'm) FCServer" where
  "flush_loop [] s = s"
| "flush_loop (dev # devs) s = flush_loop devs (act (Flush dev) s)"

text \<open>
  The body of \<^verbatim>\<open>for (;;)\<close>; \<open>err\<close> is what \<^verbatim>\<open>libusb_handle_events_completed\<close>
  returned.
\<close>

definition mainLoop_body :: "int \<Rightarrow> ('v, 'm) FCServer \<Rightarrow> ('v, 'm) FCServer" where
  "mainLoop_body err s =
     (let s1 = (if err \<noteq> 0 then act (Clog (Error_handling_events err)) s else s);
          s2 = act Lock s1;
          s3 = flush_loop (mUSBDevices s2) s2
      in act Unlock s3)"

subsection \<open>\<^verbatim>\<open>FCServer::usbHotplugPoll\<close>\<close>

text \<open>
  What \<^verbatim>\<open>libusb_get_device_list\<close> gives back: a negative error code in
  \<^verbatim>\<open>listSize\<close>, or the list of \<^verbatim>\<open>listSize\<close> devices.
\<close>

datatype get_device_list = LIBUSB_ERROR int | Device_list "libusb_device list"

text \<open>The inner loops, which run to the end without a \<^verbatim>\<open>break\<close>.\<close>

fun is_new_loop :: "libusb_device \<Rightarrow> USBDevice list \<Rightarrow> bool \<Rightarrow> bool" where
  "is_new_loop item [] isNew = isNew"
| "is_new_loop item (dev # devs) isNew =
     is_new_loop item devs (if getDevice dev = item then False else isNew)"

fun is_removed_loop :: "libusb_device \<Rightarrow> libusb_device list \<Rightarrow> bool \<Rightarrow> bool" where
  "is_removed_loop usbdev [] isRemoved = isRemoved"
| "is_removed_loop usbdev (item # items) isRemoved =
     is_removed_loop usbdev items (if item = usbdev then False else isRemoved)"

text \<open>"Look for devices that were added".\<close>

fun added_loop ::
  "'v drivers \<Rightarrow> libusb_device list \<Rightarrow> ('v, 'm) FCServer \<Rightarrow> ('v, 'm) FCServer" where
  "added_loop drv [] s = s"
| "added_loop drv (item # items) s =
     added_loop drv items
       (if is_new_loop item (mUSBDevices s) True then usbDeviceArrived drv item s else s)"

text \<open>
  "Look for devices that were removed". The loop keeps its iterator \<^verbatim>\<open>i\<close> and the
  end \<^verbatim>\<open>e\<close> it read before the first round while \<^verbatim>\<open>usbDeviceLeft(i)\<close> erases from
  the vector, which the C++ standard leaves undefined. The model follows the vector as
  the standard libraries implement it for pointers: an iterator is the address of a
  slot of one buffer, \<^verbatim>\<open>erase\<close> moves the slots behind the erased one down by one
  and lowers the size, and the slot that falls out of the vector keeps what it held.
  So \<open>i\<close> and \<open>e\<close> are slot indices, the buffer up to \<open>e\<close> is the vector followed by
  \<open>stale\<close>, the slots that have dropped out of it, and the round at \<open>i\<close> reads slot
  \<open>i\<close> of that buffer, which is the next element's successor after an erase.
  Where even this machine view gives no meaning the model stops with a fault: a call
  through a pointer to a deleted object, and \<^verbatim>\<open>erase\<close> of a slot outside the vector.
\<close>

datatype fault =
    Call_on_deleted USBDevice
  | Erase_outside_vector nat
  | Read_outside_buffer nat

function removed_loop ::
  "libusb_device list \<Rightarrow> nat \<Rightarrow> nat \<Rightarrow> USBDevice list \<Rightarrow> ('v, 'm) FCServer
     \<Rightarrow> fault + ('v, 'm) FCServer" where
  "removed_loop list i e stale s =
     (if i = e then Inr s
      else if length (mUSBDevices s @ stale) \<le> i then Inl (Read_outside_buffer i)
      else
        (let dev = (mUSBDevices s @ stale) ! i in
         if Delete dev \<in> set (actions s) then Inl (Call_on_deleted dev)
         else if is_removed_loop (getDevice dev) list True then
           (if i < length (mUSBDevices s) then
              removed_loop list (Suc i) e (last (mUSBDevices s) # stale) (usbDeviceLeft_iter i s)
            else Inl (Erase_outside_vector i))
         else removed_loop list (Suc i) e stale s))"
  by pat_completeness auto
termination
proof (relation "measure (\<lambda>(list, i, e, stale, s). length (mUSBDevices s) + length stale - i)")
  show "wf (measure (\<lambda>(list, i, e, stale, s :: ('v, 'm) FCServer).
    length (mUSBDevices s) + length stale - i))"
    by simp
next
  fix list :: "libusb_device list" and i e :: nat and stale :: "USBDevice list"
    and s :: "('v, 'm) FCServer" and dev
  assume "\<not> length (mUSBDevices s @ stale) \<le> i" "i < length (mUSBDevices s)"
  then show "((list, Suc i, e, last (mUSBDevices s) # stale, usbDeviceLeft_iter i s),
      (list, i, e, stale, s))
    \<in> measure (\<lambda>(list, i, e, stale, s). length (mUSBDevices s) + length stale - i)"
    by (simp add: usbDeviceLeft_iter_def Let_def delete_dev_def act_def clog_verbose_def)
next
  fix list :: "libusb_device list" and i e :: nat and stale :: "USBDevice list"
    and s :: "('v, 'm) FCServer" and dev
  assume "\<not> length (mUSBDevices s @ stale) \<le> i"
  then show "((list, Suc i, e, stale, s), (list, i, e, stale, s))
    \<in> measure (\<lambda>(list, i, e, stale, s). length (mUSBDevices s) + length stale - i)"
    by simp
qed

text \<open>
  The result is a fault, or the returned \<^verbatim>\<open>bool\<close> with the state. \<open>r\<close> is what
  \<^verbatim>\<open>libusb_get_device_list\<close> gives at this call.
\<close>

definition usbHotplugPoll ::
  "'v drivers \<Rightarrow> get_device_list \<Rightarrow> ('v, 'm) FCServer \<Rightarrow> fault + (bool \<times> ('v, 'm) FCServer)" where
  "usbHotplugPoll drv r s =
     (case r of
        LIBUSB_ERROR listSize \<Rightarrow> Inr (False, act (Clog (Error_polling listSize)) s)
      | Device_list list \<Rightarrow>
          (let s1 = act Lock s;
               s2 = added_loop drv list s1
           in case removed_loop list 0 (length (mUSBDevices s2)) [] s2 of
                Inl f \<Rightarrow> Inl f
              | Inr s3 \<Rightarrow> Inr (True, act Unlock s3)))"

subsection \<open>\<^verbatim>\<open>FCServer::usbHotplugThreadFunc\<close>\<close>

text \<open>
  \<^verbatim>\<open>while (self->usbHotplugPoll()) sleep_for(seconds(1))\<close>. \<open>env k\<close> is what the
  \<open>k\<close>-th poll meets: the drivers' behaviour and the result of the enumeration. The
  loop need not end: the value \<open>None\<close> is a run that goes on for ever.
\<close>

partial_function (option) usbHotplugThreadFunc ::
  "(nat \<Rightarrow> 'v drivers \<times> get_device_list) \<Rightarrow> nat \<Rightarrow> ('v, 'm) FCServer
     \<Rightarrow> (fault + ('v, 'm) FCServer) option" where
  "usbHotplugThreadFunc env k s =
     (case usbHotplugPoll (fst (env k)) (snd (env k)) s of
        Inl f \<Rightarrow> Some (Inl f)
      | Inr (continue, s') \<Rightarrow>
          if continue then usbHotplugThreadFunc env (Suc k) (act (Sleep_for 1) s')
          else Some (Inr s'))"

text \<open>The enumeration failed: \<^verbatim>\<open>listSize < 0\<close>.\<close>

definition enumeration_failed :: "get_device_list \<Rightarrow> bool" where
  "enumeration_failed r = (case r of LIBUSB_ERROR listSize \<Rightarrow> True | Device_list list \<Rightarrow> False)"

subsection \<open>The server as a whole\<close>

text \<open>The members the constructor initialises, as far as the functions above use them.\<close>

definition FCServer_new :: "'v \<Rightarrow> 'v list \<Rightarrow> bool \<Rightarrow> bool \<Rightarrow> ('v, 'm) FCServer" where
  "FCServer_new color devices verbose w =
     \<lparr>mColor = color, mDevices = devices, mVerbose = verbose, mUSBDevices = [],
      win32 = w, heap_next = 0, actions = []\<rparr>"

text \<open>
  The entry points that the transport library, the network sink and the two threads of
  the server call. Each holds \<^verbatim>\<open>mEventMutex\<close> while it touches the device vector, so
  a run of the server is a sequence of them, one after the other.
\<close>

datatype ('v, 'm) event =
    Hotplug "'v drivers" libusb_device int
  | Message 'm
  | Poll "'v drivers" get_device_list
  | MainLoop int

fun step :: "('v, 'm) event \<Rightarrow> ('v, 'm) FCServer \<Rightarrow> fault + ('v, 'm) FCServer" where
  "step (Hotplug drv device event) s = Inr (cbHotplug drv device event s)"
| "step (Message msg) s = Inr (cbMessage msg s)"
| "step (Poll drv r) s = map_sum id snd (usbHotplugPoll drv r s)"
| "step (MainLoop err) s = Inr (mainLoop_body err s)"

fun run :: "('v, 'm) event list \<Rightarrow> ('v, 'm) FCServer \<Rightarrow> fault + ('v, 'm) FCServer" where
  "run [] s = Inr s"
| "run (ev # evs) s = (case step ev s of Inl f \<Rightarrow> Inl f | Inr s' \<Rightarrow> run evs s')"

subsection \<open>The actions of an arrival, written out\<close>

text \<open>
  The calls \<^verbatim>\<open>usbDeviceArrived\<close> makes, as a list; the lemma
  \<open>usbDeviceArrived_actions\<close> below proves that these are the actions it records.
\<close>

definition probe_actions :: "driver \<Rightarrow> libusb_device \<Rightarrow> ('v, 'm) action list" where
  "probe_actions d device =
     (case d of FCDevice \<Rightarrow> [Probe FCDevice device]
      | EnttecDMXDevice \<Rightarrow> [Probe FCDevice device, Probe EnttecDMXDevice device])"

definition verbose_line :: "bool \<Rightarrow> log_line \<Rightarrow> ('v, 'm) action list" where
  "verbose_line v l = (if v then [Clog l] else [])"

fun match_actions ::
  "'v drivers \<Rightarrow> USBDevice \<Rightarrow> 'v \<Rightarrow> bool \<Rightarrow> 'v list \<Rightarrow> ('v, 'm) action list" where
  "match_actions drv dev color v [] = verbose_line v (No_matching_configuration dev) @ [Delete dev]"
| "match_actions drv dev color v (c # cs) =
     MatchConfiguration dev c #
       (if matchConfiguration drv dev c
        then [WriteColorCorrection dev color, Push_back dev] @ verbose_line v (Attached dev)
        else match_actions drv dev color v cs)"

definition open_actions ::
  "'v drivers \<Rightarrow> USBDevice \<Rightarrow> ('v, 'm) FCServer \<Rightarrow> ('v, 'm) action list" where
  "open_actions drv dev s =
     Open dev #
       (if dev_open drv dev < 0
        then verbose_line (mVerbose s) (open_error_line (win32 s) dev (dev_open drv dev)) @ [Delete dev]
        else ProbeAfterOpening dev #
          (if probeAfterOpening drv dev
           then match_actions drv dev (mColor s) (mVerbose s) (mDevices s)
           else [Delete dev]))"

definition arrival_actions ::
  "'v drivers \<Rightarrow> libusb_device \<Rightarrow> ('v, 'm) FCServer \<Rightarrow> ('v, 'm) action list" where
  "arrival_actions drv device s =
     (case probed_driver drv device of
        None \<Rightarrow> [Probe FCDevice device, Probe EnttecDMXDevice device]
      | Some d \<Rightarrow> probe_actions d device @ New (new_dev d device s) # open_actions drv (new_dev d device s) s)"

subsection \<open>Reading the action list\<close>

text \<open>The objects deleted, the objects appended to the vector, and the two calls of a
  registration, each in the order of the actions.\<close>

definition deleted :: "('v, 'm) action list \<Rightarrow> USBDevice list" where
  "deleted as = concat (map (\<lambda>a. case a of Delete dev \<Rightarrow> [dev] | _ \<Rightarrow> []) as)"

definition pushed :: "('v, 'm) action list \<Rightarrow> USBDevice list" where
  "pushed as = concat (map (\<lambda>a. case a of Push_back dev \<Rightarrow> [dev] | _ \<Rightarrow> []) as)"

definition registration_calls :: "('v, 'm) action list \<Rightarrow> ('v, 'm) action list" where
  "registration_calls as =
     filter (\<lambda>a. case a of WriteColorCorrection dev c \<Rightarrow> True | Push_back dev \<Rightarrow> True | _ \<Rightarrow> False) as"

text \<open>
  The registered objects are distinct allocations that have not been deleted, and every
  object in use was handed out by the allocator. This holds for the new server and is
  kept by every operation (\<open>live_registry_reachable\<close>).
\<close>

definition live_registry :: "('v, 'm) FCServer \<Rightarrow> bool" where
  "live_registry s =
     (distinct (map objid (mUSBDevices s))
      \<and> list_all (\<lambda>dev. objid dev < heap_next s \<and> dev \<notin> set (deleted (actions s))) (mUSBDevices s)
      \<and> list_all (\<lambda>dev. objid dev < heap_next s) (deleted (actions s)))"

text \<open>The native device an action is about, if there is one.\<close>

definition action_handle :: "('v, 'm) action \<Rightarrow> libusb_device option" where
  "action_handle a =
     (case a of
        Lock \<Rightarrow> None
      | Unlock \<Rightarrow> None
      | Probe d device \<Rightarrow> Some device
      | New dev \<Rightarrow> Some (getDevice dev)
      | Open dev \<Rightarrow> Some (getDevice dev)
      | ProbeAfterOpening dev \<Rightarrow> Some (getDevice dev)
      | MatchConfiguration dev c \<Rightarrow> Some (getDevice dev)
      | WriteColorCorrection dev c \<Rightarrow> Some (getDevice dev)
      | Push_back dev \<Rightarrow> Some (getDevice dev)
      | Erase dev \<Rightarrow> Some (getDevice dev)
      | Delete dev \<Rightarrow> Some (getDevice dev)
      | WriteMessage dev m \<Rightarrow> Some (getDevice dev)
      | Flush dev \<Rightarrow> Some (getDevice dev)
      | Clog l \<Rightarrow>
          (case l of
             Waiting_for_Windows dev \<Rightarrow> Some (getDevice dev)
           | Error_opening dev r \<Rightarrow> Some (getDevice dev)
           | Attached dev \<Rightarrow> Some (getDevice dev)
           | No_matching_configuration dev \<Rightarrow> Some (getDevice dev)
           | Removed dev \<Rightarrow> Some (getDevice dev)
           | Error_polling r \<Rightarrow> None
           | Error_handling_events r \<Rightarrow> None)
      | Sleep_for n \<Rightarrow> None)"

subsection \<open>Runs in which an arrival is reported for unregistered devices only\<close>

text \<open>
  \<^verbatim>\<open>usbDeviceArrived\<close> ("New USB device") does not look into the vector; the poll
  asks \<^verbatim>\<open>isNew\<close> before it calls it, the hotplug callback relies on the transport
  library. \<open>arrival_is_new ev s\<close> says that the event \<open>ev\<close>, met in state \<open>s\<close>,
  is not a hotplug arrival for a native device that is registered, and
  \<open>arrivals_are_new evs s\<close> says so for each event of a run, in the state it meets.
\<close>

definition arrival_is_new :: "('v, 'm) event \<Rightarrow> ('v, 'm) FCServer \<Rightarrow> bool" where
  "arrival_is_new ev s =
     (case ev of
        Hotplug drv device event \<Rightarrow>
          event AND LIBUSB_HOTPLUG_EVENT_DEVICE_ARRIVED = 0
          \<or> list_all (\<lambda>dev. getDevice dev \<noteq> device) (mUSBDevices s)
      | _ \<Rightarrow> True)"

fun arrivals_are_new :: "('v, 'm) event list \<Rightarrow> ('v, 'm) FCServer \<Rightarrow> bool" where
  "arrivals_are_new [] s = True"
| "arrivals_are_new (ev # evs) s =
     (arrival_is_new ev s
      \<and> (case step ev s of Inl f \<Rightarrow> True | Inr s' \<Rightarrow> arrivals_are_new evs s'))"

text \<open>The native devices of the registered objects, in vector order.\<close>

definition handles :: "('v, 'm) FCServer \<Rightarrow> libusb_device list" where
  "handles s = map getDevice (mUSBDevices s)"

subsection \<open>Registrations\<close>

text \<open>
  The calls of the registrations of the objects \<open>devs\<close>, one after the other: the
  colour correction of an object, then its \<^verbatim>\<open>push_back\<close>.
\<close>

definition registrations :: "'v \<Rightarrow> USBDevice list \<Rightarrow> ('v, 'm) action list" where
  "registrations color devs =
     concat (map (\<lambda>dev. [WriteColorCorrection dev color, Push_back dev]) devs)"

text \<open>
  What every operation keeps (\<open>reg_inv_run\<close>): the registration calls recorded so far
  are the registrations of the objects appended so far, these objects are distinct
  allocations, and the vector holds only objects that were appended.
\<close>

definition reg_inv :: "('v, 'm) FCServer \<Rightarrow> bool" where
  "reg_inv s =
     (registration_calls (actions s) = registrations (mColor s) (pushed (actions s))
      \<and> list_all (\<lambda>dev. objid dev < heap_next s) (pushed (actions s))
      \<and> distinct (pushed (actions s))
      \<and> list_all (\<lambda>dev. dev \<in> set (pushed (actions s))) (mUSBDevices s))"

text \<open>The colour specifications written to the object \<open>dev\<close>, in order.\<close>

definition color_corrections_of :: "USBDevice \<Rightarrow> ('v, 'm) action list \<Rightarrow> 'v list" where
  "color_corrections_of dev as =
     concat (map (\<lambda>a. case a of WriteColorCorrection d c \<Rightarrow> (if d = dev then [c] else [])
                         | _ \<Rightarrow> []) as)"

subsection \<open>Examples\<close>

text \<open>Concrete drivers for the examples.\<close>

definition accept_all :: "nat drivers" where
  "accept_all = \<lparr>FCDevice_probe = (\<lambda>device. True), EnttecDMXDevice_probe = (\<lambda>device. False),
     dev_open = (\<lambda>dev. 0), probeAfterOpening = (\<lambda>dev. True),
     matchConfiguration = (\<lambda>dev c. True)\<rparr>"

definition example_server :: "(nat, nat) FCServer" where
  "example_server = FCServer_new 0 [10, 20] True False"

definition example_dev :: USBDevice where
  "example_dev = \<lparr>objid = 0, getDevice = 7, driver = FCDevice\<rparr>"

definition dev_at :: "nat \<Rightarrow> libusb_device \<Rightarrow> USBDevice" where
  "dev_at k device = \<lparr>objid = k, getDevice = device, driver = FCDevice\<rparr>"

definition server_with :: "USBDevice list \<Rightarrow> (nat, nat) FCServer" where
  "server_with devs = (FCServer_new 0 [10, 20] True False)
     \<lparr>mUSBDevices := devs, heap_next := length devs\<rparr>"

definition open_fails :: "nat drivers" where
  "open_fails = accept_all\<lparr>dev_open := (\<lambda>dev. - 4)\<rparr>"

definition example_events :: "(nat, nat) event list" where
  "example_events =
     [Hotplug accept_all 7 LIBUSB_HOTPLUG_EVENT_DEVICE_ARRIVED,
      Poll accept_all (Device_list [7, 8]),
      Hotplug accept_all 7 LIBUSB_HOTPLUG_EVENT_DEVICE_LEFT]"

definition example_env :: "nat \<Rightarrow> nat drivers \<times> get_device_list" where
  "example_env n = (accept_all, if n < 2 then Device_list [7] else LIBUSB_ERROR (- 1))"

section \<open>Properties\<close>

subsection \<open>Basic facts about the recorded state\<close>

lemma act_fields [simp]:
  "mColor (act a s) = mColor s"
  "mDevices (act a s) = mDevices s"
  "mVerbose (act a s) = mVerbose s"
  "mUSBDevices (act a s) = mUSBDevices s"
  "win32 (act a s) = win32 s"
  "heap_next (act a s) = heap_next s"
  "actions (act a s) = actions s @ [a]"
  by (simp_all add: act_def)

lemma clog_verbose_fields [simp]:
  "mColor (clog_verbose l s) = mColor s"
  "mDevices (clog_verbose l s) = mDevices s"
  "mVerbose (clog_verbose l s) = mVerbose s"
  "mUSBDevices (clog_verbose l s) = mUSBDevices s"
  "win32 (clog_verbose l s) = win32 s"
  "heap_next (clog_verbose l s) = heap_next s"
  "actions (clog_verbose l s) = actions s @ (if mVerbose s then [Clog l] else [])"
  by (simp_all add: clog_verbose_def)

lemma delete_dev_fields [simp]:
  "mColor (delete_dev d s) = mColor s"
  "mDevices (delete_dev d s) = mDevices s"
  "mVerbose (delete_dev d s) = mVerbose s"
  "mUSBDevices (delete_dev d s) = mUSBDevices s"
  "win32 (delete_dev d s) = win32 s"
  "heap_next (delete_dev d s) = heap_next s"
  "actions (delete_dev d s) = actions s @ [Delete d]"
  by (simp_all add: delete_dev_def)

lemma alloc_fields [simp]:
  "mColor (alloc d device s) = mColor s"
  "mDevices (alloc d device s) = mDevices s"
  "mVerbose (alloc d device s) = mVerbose s"
  "mUSBDevices (alloc d device s) = mUSBDevices s"
  "win32 (alloc d device s) = win32 s"
  "heap_next (alloc d device s) = Suc (heap_next s)"
  "actions (alloc d device s) = actions s @ [New (new_dev d device s)]"
  by (simp_all add: alloc_def new_dev_def)

lemma new_dev_act [simp]: "new_dev d device (act a s) = new_dev d device s"
  by (simp add: new_dev_def)

lemma accepted_act: "accepted drv device (act a s) = accepted drv device s"
  by (simp add: accepted_def Let_def split: option.splits)

lemma deleted_simps [simp]:
  "deleted [] = []"
  "deleted (as @ bs) = deleted as @ deleted bs"
  "deleted (Delete dev # as) = dev # deleted as"
  "deleted (Lock # as) = deleted as"
  "deleted (Unlock # as) = deleted as"
  "deleted (Probe d device # as) = deleted as"
  "deleted (New dev # as) = deleted as"
  "deleted (Open dev # as) = deleted as"
  "deleted (ProbeAfterOpening dev # as) = deleted as"
  "deleted (MatchConfiguration dev c # as) = deleted as"
  "deleted (WriteColorCorrection dev c # as) = deleted as"
  "deleted (Push_back dev # as) = deleted as"
  "deleted (Erase dev # as) = deleted as"
  "deleted (WriteMessage dev m # as) = deleted as"
  "deleted (Flush dev # as) = deleted as"
  "deleted (Clog l # as) = deleted as"
  "deleted (Sleep_for n # as) = deleted as"
  by (simp_all add: deleted_def)

lemma pushed_simps [simp]:
  "pushed [] = []"
  "pushed (as @ bs) = pushed as @ pushed bs"
  "pushed (Push_back dev # as) = dev # pushed as"
  "pushed (Lock # as) = pushed as"
  "pushed (Unlock # as) = pushed as"
  "pushed (Probe d device # as) = pushed as"
  "pushed (New dev # as) = pushed as"
  "pushed (Open dev # as) = pushed as"
  "pushed (ProbeAfterOpening dev # as) = pushed as"
  "pushed (MatchConfiguration dev c # as) = pushed as"
  "pushed (WriteColorCorrection dev c # as) = pushed as"
  "pushed (Delete dev # as) = pushed as"
  "pushed (Erase dev # as) = pushed as"
  "pushed (WriteMessage dev m # as) = pushed as"
  "pushed (Flush dev # as) = pushed as"
  "pushed (Clog l # as) = pushed as"
  "pushed (Sleep_for n # as) = pushed as"
  by (simp_all add: pushed_def)

lemma registration_calls_simps [simp]:
  "registration_calls [] = []"
  "registration_calls (as @ bs) = registration_calls as @ registration_calls bs"
  "registration_calls (Push_back dev # as) = Push_back dev # registration_calls as"
  "registration_calls (WriteColorCorrection dev c # as) =
     WriteColorCorrection dev c # registration_calls as"
  "registration_calls (Lock # as) = registration_calls as"
  "registration_calls (Unlock # as) = registration_calls as"
  "registration_calls (Probe d device # as) = registration_calls as"
  "registration_calls (New dev # as) = registration_calls as"
  "registration_calls (Open dev # as) = registration_calls as"
  "registration_calls (ProbeAfterOpening dev # as) = registration_calls as"
  "registration_calls (MatchConfiguration dev c # as) = registration_calls as"
  "registration_calls (Delete dev # as) = registration_calls as"
  "registration_calls (Erase dev # as) = registration_calls as"
  "registration_calls (WriteMessage dev m # as) = registration_calls as"
  "registration_calls (Flush dev # as) = registration_calls as"
  "registration_calls (Clog l # as) = registration_calls as"
  "registration_calls (Sleep_for n # as) = registration_calls as"
  by (simp_all add: registration_calls_def)

lemma verbose_line_projections [simp]:
  "deleted (verbose_line v l) = []"
  "pushed (verbose_line v l) = []"
  "registration_calls (verbose_line v l) = []"
  by (simp_all add: verbose_line_def)

lemma probe_actions_projections [simp]:
  "deleted (probe_actions d device) = []"
  "pushed (probe_actions d device) = []"
  "registration_calls (probe_actions d device) = []"
  by (simp_all add: probe_actions_def split: driver.splits)

lemma map_MatchConfiguration_projections [simp]:
  "deleted (map (MatchConfiguration dev) cs) = []"
  "pushed (map (MatchConfiguration dev) cs) = []"
  "registration_calls (map (MatchConfiguration dev) cs) = []"
  by (induction cs) simp_all

lemma map_WriteMessage_projections [simp]:
  "deleted (map (\<lambda>d. WriteMessage d msg) devs) = []"
  "pushed (map (\<lambda>d. WriteMessage d msg) devs) = []"
  "registration_calls (map (\<lambda>d. WriteMessage d msg) devs) = []"
  by (induction devs) simp_all

lemma map_Flush_projections [simp]:
  "deleted (map Flush devs) = []"
  "pushed (map Flush devs) = []"
  "registration_calls (map Flush devs) = []"
  by (induction devs) simp_all

lemma Delete_in_set: "Delete dev \<in> set as \<longleftrightarrow> dev \<in> set (deleted as)"
proof (induction as)
  case Nil
  then show ?case by simp
next
  case (Cons a as)
  then show ?case by (cases a) auto
qed

subsection \<open>The device vector and the actions of an arrival\<close>

lemma match_loop_mUSBDevices:
  "mUSBDevices (match_loop drv dev cs s) =
     (if \<exists>c \<in> set cs. matchConfiguration drv dev c then mUSBDevices s @ [dev]
      else mUSBDevices s)"
  by (induction cs arbitrary: s) (simp_all add: Let_def)

lemma match_loop_const [simp]:
  "mColor (match_loop drv dev cs s) = mColor s"
  "mDevices (match_loop drv dev cs s) = mDevices s"
  "mVerbose (match_loop drv dev cs s) = mVerbose s"
  "win32 (match_loop drv dev cs s) = win32 s"
  "heap_next (match_loop drv dev cs s) = heap_next s"
  by (induction cs arbitrary: s) (simp_all add: Let_def)

lemma open_and_match_mUSBDevices:
  "mUSBDevices (open_and_match drv dev s) =
     (if 0 \<le> dev_open drv dev \<and> probeAfterOpening drv dev
         \<and> (\<exists>c \<in> set (mDevices s). matchConfiguration drv dev c)
      then mUSBDevices s @ [dev] else mUSBDevices s)"
  by (simp add: open_and_match_def Let_def match_loop_mUSBDevices)

lemma open_and_match_const [simp]:
  "mColor (open_and_match drv dev s) = mColor s"
  "mDevices (open_and_match drv dev s) = mDevices s"
  "mVerbose (open_and_match drv dev s) = mVerbose s"
  "win32 (open_and_match drv dev s) = win32 s"
  "heap_next (open_and_match drv dev s) = heap_next s"
  by (simp_all add: open_and_match_def Let_def)

lemma usbDeviceArrived_mUSBDevices:
  "mUSBDevices (usbDeviceArrived drv device s) =
     (case accepted drv device s of None \<Rightarrow> mUSBDevices s | Some dev \<Rightarrow> mUSBDevices s @ [dev])"
  by (auto simp: usbDeviceArrived_def accepted_def probed_driver_def Let_def
      open_and_match_mUSBDevices list_ex_iff)

lemma usbDeviceArrived_const [simp]:
  "mColor (usbDeviceArrived drv device s) = mColor s"
  "mDevices (usbDeviceArrived drv device s) = mDevices s"
  "mVerbose (usbDeviceArrived drv device s) = mVerbose s"
  "win32 (usbDeviceArrived drv device s) = win32 s"
  by (simp_all add: usbDeviceArrived_def Let_def)

lemma actions_clog_verbose: "actions (clog_verbose l s) = actions s @ verbose_line (mVerbose s) l"
  by (simp add: verbose_line_def)

lemma match_loop_actions:
  "actions (match_loop drv dev cs s) = actions s @ match_actions drv dev (mColor s) (mVerbose s) cs"
  by (induction cs arbitrary: s) (simp_all add: Let_def verbose_line_def)

lemma open_and_match_actions:
  "actions (open_and_match drv dev s) = actions s @ open_actions drv dev s"
  by (simp add: open_and_match_def open_actions_def Let_def match_loop_actions verbose_line_def)

lemma open_actions_cong:
  "mVerbose s = mVerbose t \<Longrightarrow> win32 s = win32 t \<Longrightarrow> mColor s = mColor t \<Longrightarrow> mDevices s = mDevices t
   \<Longrightarrow> open_actions drv dev s = open_actions drv dev t"
  by (simp add: open_actions_def)

lemma usbDeviceArrived_actions:
  "actions (usbDeviceArrived drv device s) = actions s @ arrival_actions drv device s"
  by (simp add: usbDeviceArrived_def arrival_actions_def probed_driver_def Let_def
      open_and_match_actions probe_actions_def
      open_actions_cong [of "alloc d device (act a s)" s for d a]
      open_actions_cong [of "alloc d device (act a (act b s))" s for d a b])

lemma usbDeviceArrived_heap_next:
  "heap_next (usbDeviceArrived drv device s) =
     (case probed_driver drv device of None \<Rightarrow> heap_next s | Some d \<Rightarrow> Suc (heap_next s))"
  by (simp add: usbDeviceArrived_def probed_driver_def Let_def)

lemma accepted_Some:
  "accepted drv device s = Some dev \<Longrightarrow>
     getDevice dev = device \<and> objid dev = heap_next s
     \<and> (\<exists>d. probed_driver drv device = Some d \<and> dev = new_dev d device s)"
  by (auto simp: accepted_def new_dev_def Let_def split: option.splits if_splits)

lemma usbDeviceArrived_handles_mono:
  "set (mUSBDevices s) \<subseteq> set (mUSBDevices (usbDeviceArrived drv device s))"
  by (auto simp: usbDeviceArrived_mUSBDevices split: option.splits)

lemma match_actions_none:
  "\<forall>c \<in> set cs. \<not> matchConfiguration drv dev c \<Longrightarrow>
   match_actions drv dev color v cs =
     map (MatchConfiguration dev) cs @ verbose_line v (No_matching_configuration dev) @ [Delete dev]"
  by (induction cs) simp_all

lemma match_actions_first:
  "i < length cs \<Longrightarrow> matchConfiguration drv dev (cs ! i) \<Longrightarrow>
   \<forall>k < i. \<not> matchConfiguration drv dev (cs ! k) \<Longrightarrow>
   match_actions drv dev color v cs =
     map (MatchConfiguration dev) (take (Suc i) cs)
       @ [WriteColorCorrection dev color, Push_back dev] @ verbose_line v (Attached dev)"
proof (induction cs arbitrary: i)
  case Nil
  then show ?case by simp
next
  case (Cons c cs)
  show ?case
  proof (cases i)
    case 0
    with Cons.prems show ?thesis by simp
  next
    case (Suc j)
    with Cons.prems have nc: "\<not> matchConfiguration drv dev c" by auto
    from Suc Cons.prems have "j < length cs" "matchConfiguration drv dev (cs ! j)"
      "\<forall>k < j. \<not> matchConfiguration drv dev (cs ! k)" by auto
    from Cons.IH [OF this] nc Suc show ?thesis by simp
  qed
qed

lemma arrival_actions_first:
  assumes "probed_driver drv device = Some d" and "dev = new_dev d device s"
    and "0 \<le> dev_open drv dev" and "probeAfterOpening drv dev"
    and "i < length (mDevices s)" and "matchConfiguration drv dev (mDevices s ! i)"
    and "\<forall>k < i. \<not> matchConfiguration drv dev (mDevices s ! k)"
  shows "arrival_actions drv device s =
           probe_actions d device @ [New dev, Open dev, ProbeAfterOpening dev]
             @ map (MatchConfiguration dev) (take (Suc i) (mDevices s))
             @ [WriteColorCorrection dev (mColor s), Push_back dev]
             @ verbose_line (mVerbose s) (Attached dev)"
  using assms(1-4) match_actions_first [OF assms(5-7)]
  by (simp add: arrival_actions_def open_actions_def)

lemma arrival_actions_no_match:
  assumes "probed_driver drv device = Some d" and "dev = new_dev d device s"
    and "0 \<le> dev_open drv dev" and "probeAfterOpening drv dev"
    and "\<forall>c \<in> set (mDevices s). \<not> matchConfiguration drv dev c"
  shows "arrival_actions drv device s =
           probe_actions d device @ [New dev, Open dev, ProbeAfterOpening dev]
             @ map (MatchConfiguration dev) (mDevices s)
             @ verbose_line (mVerbose s) (No_matching_configuration dev) @ [Delete dev]"
  using assms(1-4) match_actions_none [OF assms(5)]
  by (simp add: arrival_actions_def open_actions_def)

lemma match_actions_projections:
  "deleted (match_actions drv dev color v cs) =
     (if list_ex (matchConfiguration drv dev) cs then [] else [dev])"
  "pushed (match_actions drv dev color v cs) =
     (if list_ex (matchConfiguration drv dev) cs then [dev] else [])"
  "registration_calls (match_actions drv dev color v cs) =
     (if list_ex (matchConfiguration drv dev) cs
      then [WriteColorCorrection dev color, Push_back dev] else [])"
  by (induction cs) simp_all

lemma arrival_actions_projections:
  "deleted (arrival_actions drv device s) =
     (case probed_driver drv device of None \<Rightarrow> []
      | Some d \<Rightarrow> (case accepted drv device s of None \<Rightarrow> [new_dev d device s] | Some dev \<Rightarrow> []))"
  "pushed (arrival_actions drv device s) =
     (case accepted drv device s of None \<Rightarrow> [] | Some dev \<Rightarrow> [dev])"
  "registration_calls (arrival_actions drv device s) =
     (case accepted drv device s of None \<Rightarrow> []
      | Some dev \<Rightarrow> [WriteColorCorrection dev (mColor s), Push_back dev])"
  by (auto simp: arrival_actions_def open_actions_def accepted_def match_actions_projections
      Let_def split: option.splits)

lemma match_actions_handles:
  "action_handle ` set (match_actions drv dev color v cs) \<subseteq> {Some (getDevice dev)}"
  by (induction cs) (auto simp: action_handle_def verbose_line_def)

lemma arrival_actions_handles:
  "action_handle ` set (arrival_actions drv device s) \<subseteq> {Some device}"
proof (cases "probed_driver drv device")
  case None
  then show ?thesis by (simp add: arrival_actions_def action_handle_def)
next
  case (Some d)
  have "getDevice (new_dev d device s) = device" by (simp add: new_dev_def)
  with match_actions_handles [of drv "new_dev d device s" "mColor s" "mVerbose s" "mDevices s"]
  have "action_handle ` set (match_actions drv (new_dev d device s) (mColor s) (mVerbose s) (mDevices s))
    \<subseteq> {Some device}" by simp
  with Some show ?thesis
    by (auto simp: arrival_actions_def open_actions_def action_handle_def verbose_line_def
        probe_actions_def open_error_line_def new_dev_def split: driver.splits)
qed

subsection \<open>Registration needs open, post-open probe and a matching entry\<close>

text \<open>
  Claim C2. An arrival appends a device object to \<^verbatim>\<open>mUSBDevices\<close> exactly when a
  static probe accepted the native device, \<^verbatim>\<open>open()\<close> returned a non-negative
  result, \<^verbatim>\<open>probeAfterOpening()\<close> returned true and some entry of \<^verbatim>\<open>mDevices\<close>
  made \<^verbatim>\<open>matchConfiguration\<close> return true; the object appended is the one that was
  constructed for the native device. When one of the conditions fails the vector is as
  it was.
\<close>

theorem usbDeviceArrived_registers_iff:
  "mUSBDevices (usbDeviceArrived drv device s) =
     (case probed_driver drv device of
        None \<Rightarrow> mUSBDevices s
      | Some d \<Rightarrow>
          if 0 \<le> dev_open drv (new_dev d device s)
             \<and> probeAfterOpening drv (new_dev d device s)
             \<and> (\<exists>c \<in> set (mDevices s). matchConfiguration drv (new_dev d device s) c)
          then mUSBDevices s @ [new_dev d device s]
          else mUSBDevices s)"
  by (auto simp: usbDeviceArrived_mUSBDevices accepted_def Let_def list_ex_iff
      split: option.splits)

theorem usbDeviceArrived_registers_iff_witness:
  "mUSBDevices (usbDeviceArrived accept_all 7 example_server)
     = [\<lparr>objid = 0, getDevice = 7, driver = FCDevice\<rparr>]
   \<and> mUSBDevices (usbDeviceArrived (accept_all\<lparr>dev_open := (\<lambda>dev. - 4)\<rparr>) 7 example_server) = []
   \<and> mUSBDevices (usbDeviceArrived (accept_all\<lparr>probeAfterOpening := (\<lambda>dev. False)\<rparr>) 7 example_server) = []
   \<and> mUSBDevices (usbDeviceArrived (accept_all\<lparr>matchConfiguration := (\<lambda>dev c. False)\<rparr>) 7 example_server) = []"
  using usbDeviceArrived_registers_iff [of accept_all 7 example_server]
    usbDeviceArrived_registers_iff [of "accept_all\<lparr>dev_open := (\<lambda>dev. - 4)\<rparr>" 7 example_server]
    usbDeviceArrived_registers_iff [of "accept_all\<lparr>probeAfterOpening := (\<lambda>dev. False)\<rparr>" 7 example_server]
    usbDeviceArrived_registers_iff [of "accept_all\<lparr>matchConfiguration := (\<lambda>dev c. False)\<rparr>" 7 example_server]
  by (auto simp: accept_all_def example_server_def FCServer_new_def probed_driver_def new_dev_def)

subsection \<open>First match in declaration order\<close>

text \<open>
  Claim C3. When the device is opened and probed and \<open>i\<close> is the first index of
  \<^verbatim>\<open>mDevices\<close> whose entry it matches, \<^verbatim>\<open>matchConfiguration\<close> is called on the
  entries \<open>0, ..., i\<close> in this order and on no other entry, whatever the entries after
  \<open>i\<close> would answer; the call on entry \<open>i\<close> is followed at once by the colour
  correction and the registration. So with the entries \<open>[A, B]\<close> both matching only
  \<open>A\<close> is consulted, and with \<open>[B, A]\<close> only \<open>B\<close>.
\<close>

theorem usbDeviceArrived_first_match:
  assumes "probed_driver drv device = Some d" and "dev = new_dev d device s"
    and "0 \<le> dev_open drv dev" and "probeAfterOpening drv dev"
    and "i < length (mDevices s)" and "matchConfiguration drv dev (mDevices s ! i)"
    and "\<forall>k < i. \<not> matchConfiguration drv dev (mDevices s ! k)"
  shows "actions (usbDeviceArrived drv device s) =
           actions s @ probe_actions d device @ [New dev, Open dev, ProbeAfterOpening dev]
             @ map (MatchConfiguration dev) (take (Suc i) (mDevices s))
             @ [WriteColorCorrection dev (mColor s), Push_back dev]
             @ verbose_line (mVerbose s) (Attached dev)
         \<and> mUSBDevices (usbDeviceArrived drv device s) = mUSBDevices s @ [dev]"
proof -
  from assms(5,6) have "\<exists>c \<in> set (mDevices s). matchConfiguration drv dev c"
    using nth_mem by blast
  with assms(1-4) have "accepted drv device s = Some dev"
    by (simp add: accepted_def list_ex_iff)
  then show ?thesis
    by (simp add: usbDeviceArrived_actions usbDeviceArrived_mUSBDevices
        arrival_actions_first [OF assms])
qed

theorem usbDeviceArrived_first_match_witness:
  "actions (usbDeviceArrived accept_all 7 (FCServer_new 0 [10, 20] False False :: (nat, nat) FCServer))
     = [Probe FCDevice 7, New example_dev, Open example_dev, ProbeAfterOpening example_dev,
        MatchConfiguration example_dev 10, WriteColorCorrection example_dev 0, Push_back example_dev]
   \<and> actions (usbDeviceArrived accept_all 7 (FCServer_new 0 [20, 10] False False :: (nat, nat) FCServer))
     = [Probe FCDevice 7, New example_dev, Open example_dev, ProbeAfterOpening example_dev,
        MatchConfiguration example_dev 20, WriteColorCorrection example_dev 0, Push_back example_dev]"
  using usbDeviceArrived_first_match [of accept_all 7 FCDevice example_dev
      "FCServer_new 0 [10, 20] False False :: (nat, nat) FCServer" 0]
    usbDeviceArrived_first_match [of accept_all 7 FCDevice example_dev
      "FCServer_new 0 [20, 10] False False :: (nat, nat) FCServer" 0]
  by (simp add: accept_all_def FCServer_new_def probed_driver_def new_dev_def example_dev_def
      probe_actions_def verbose_line_def)

subsection \<open>The rejection paths\<close>

text \<open>
  Claim C5. On each of the four rejection paths of an arrival (no static probe accepts;
  \<^verbatim>\<open>open()\<close> is negative; \<^verbatim>\<open>probeAfterOpening()\<close> is false; no entry matches) the
  device vector is what it was before, and the calls made are the ones listed: when an
  object was constructed (\<open>New dev\<close>) the last call is its \<^verbatim>\<open>delete\<close>, and when no
  probe accepted nothing was constructed and nothing is deleted.
\<close>

theorem usbDeviceArrived_rejection:
  "(probed_driver drv device = None \<longrightarrow>
      mUSBDevices (usbDeviceArrived drv device s) = mUSBDevices s
      \<and> actions (usbDeviceArrived drv device s) =
          actions s @ [Probe FCDevice device, Probe EnttecDMXDevice device])
   \<and> (\<forall>d dev. probed_driver drv device = Some d \<and> dev = new_dev d device s \<longrightarrow>
        (dev_open drv dev < 0 \<longrightarrow>
           mUSBDevices (usbDeviceArrived drv device s) = mUSBDevices s
           \<and> actions (usbDeviceArrived drv device s) =
               actions s @ probe_actions d device @ [New dev, Open dev]
                 @ verbose_line (mVerbose s) (open_error_line (win32 s) dev (dev_open drv dev))
                 @ [Delete dev])
        \<and> (0 \<le> dev_open drv dev \<and> \<not> probeAfterOpening drv dev \<longrightarrow>
           mUSBDevices (usbDeviceArrived drv device s) = mUSBDevices s
           \<and> actions (usbDeviceArrived drv device s) =
               actions s @ probe_actions d device
                 @ [New dev, Open dev, ProbeAfterOpening dev, Delete dev])
        \<and> (0 \<le> dev_open drv dev \<and> probeAfterOpening drv dev
             \<and> (\<forall>c \<in> set (mDevices s). \<not> matchConfiguration drv dev c) \<longrightarrow>
           mUSBDevices (usbDeviceArrived drv device s) = mUSBDevices s
           \<and> actions (usbDeviceArrived drv device s) =
               actions s @ probe_actions d device @ [New dev, Open dev, ProbeAfterOpening dev]
                 @ map (MatchConfiguration dev) (mDevices s)
                 @ verbose_line (mVerbose s) (No_matching_configuration dev) @ [Delete dev]))"
proof (intro conjI allI impI; (elim conjE)?)
  assume "probed_driver drv device = None"
  then show "mUSBDevices (usbDeviceArrived drv device s) = mUSBDevices s"
    by (simp add: usbDeviceArrived_mUSBDevices accepted_def)
next
  assume "probed_driver drv device = None"
  then show "actions (usbDeviceArrived drv device s) =
      actions s @ [Probe FCDevice device, Probe EnttecDMXDevice device]"
    by (simp add: usbDeviceArrived_actions arrival_actions_def)
next
  fix d dev
  assume "probed_driver drv device = Some d" "dev = new_dev d device s" "dev_open drv dev < 0"
  then show "mUSBDevices (usbDeviceArrived drv device s) = mUSBDevices s"
    by (simp add: usbDeviceArrived_mUSBDevices accepted_def)
next
  fix d dev
  assume "probed_driver drv device = Some d" "dev = new_dev d device s" "dev_open drv dev < 0"
  then show "actions (usbDeviceArrived drv device s) =
      actions s @ probe_actions d device @ [New dev, Open dev]
        @ verbose_line (mVerbose s) (open_error_line (win32 s) dev (dev_open drv dev))
        @ [Delete dev]"
    by (simp add: usbDeviceArrived_actions arrival_actions_def open_actions_def)
next
  fix d dev
  assume "probed_driver drv device = Some d" "dev = new_dev d device s"
    "0 \<le> dev_open drv dev" "\<not> probeAfterOpening drv dev"
  then show "mUSBDevices (usbDeviceArrived drv device s) = mUSBDevices s"
    by (simp add: usbDeviceArrived_mUSBDevices accepted_def)
next
  fix d dev
  assume "probed_driver drv device = Some d" "dev = new_dev d device s"
    "0 \<le> dev_open drv dev" "\<not> probeAfterOpening drv dev"
  then show "actions (usbDeviceArrived drv device s) =
      actions s @ probe_actions d device @ [New dev, Open dev, ProbeAfterOpening dev, Delete dev]"
    by (simp add: usbDeviceArrived_actions arrival_actions_def open_actions_def)
next
  fix d dev
  assume "probed_driver drv device = Some d" "dev = new_dev d device s"
    "\<forall>c \<in> set (mDevices s). \<not> matchConfiguration drv dev c"
  then show "mUSBDevices (usbDeviceArrived drv device s) = mUSBDevices s"
    by (simp add: usbDeviceArrived_mUSBDevices accepted_def list_ex_iff)
next
  fix d dev
  assume "probed_driver drv device = Some d" "dev = new_dev d device s"
    "0 \<le> dev_open drv dev" "probeAfterOpening drv dev"
    "\<forall>c \<in> set (mDevices s). \<not> matchConfiguration drv dev c"
  then show "actions (usbDeviceArrived drv device s) =
      actions s @ probe_actions d device @ [New dev, Open dev, ProbeAfterOpening dev]
        @ map (MatchConfiguration dev) (mDevices s)
        @ verbose_line (mVerbose s) (No_matching_configuration dev) @ [Delete dev]"
    by (simp add: usbDeviceArrived_actions arrival_actions_no_match)
qed

theorem usbDeviceArrived_rejection_witness:
  "actions (usbDeviceArrived (accept_all\<lparr>FCDevice_probe := (\<lambda>device. False)\<rparr>) 7 example_server)
     = [Probe FCDevice 7, Probe EnttecDMXDevice 7]
   \<and> mUSBDevices (usbDeviceArrived (accept_all\<lparr>FCDevice_probe := (\<lambda>device. False)\<rparr>) 7 example_server) = []
   \<and> actions (usbDeviceArrived (accept_all\<lparr>dev_open := (\<lambda>dev. - 4)\<rparr>) 7 example_server)
     = [Probe FCDevice 7, New example_dev, Open example_dev,
        Clog (Error_opening example_dev (- 4)), Delete example_dev]
   \<and> mUSBDevices (usbDeviceArrived (accept_all\<lparr>dev_open := (\<lambda>dev. - 4)\<rparr>) 7 example_server) = []
   \<and> actions (usbDeviceArrived (accept_all\<lparr>probeAfterOpening := (\<lambda>dev. False)\<rparr>) 7 example_server)
     = [Probe FCDevice 7, New example_dev, Open example_dev, ProbeAfterOpening example_dev,
        Delete example_dev]
   \<and> mUSBDevices (usbDeviceArrived (accept_all\<lparr>probeAfterOpening := (\<lambda>dev. False)\<rparr>) 7 example_server) = []
   \<and> actions (usbDeviceArrived (accept_all\<lparr>matchConfiguration := (\<lambda>dev c. False)\<rparr>) 7 example_server)
     = [Probe FCDevice 7, New example_dev, Open example_dev, ProbeAfterOpening example_dev,
        MatchConfiguration example_dev 10, MatchConfiguration example_dev 20,
        Clog (No_matching_configuration example_dev), Delete example_dev]
   \<and> mUSBDevices (usbDeviceArrived (accept_all\<lparr>matchConfiguration := (\<lambda>dev c. False)\<rparr>) 7 example_server) = []"
  using usbDeviceArrived_rejection [of "accept_all\<lparr>FCDevice_probe := (\<lambda>device. False)\<rparr>" 7 example_server]
    usbDeviceArrived_rejection [of "accept_all\<lparr>dev_open := (\<lambda>dev. - 4)\<rparr>" 7 example_server]
    usbDeviceArrived_rejection [of "accept_all\<lparr>probeAfterOpening := (\<lambda>dev. False)\<rparr>" 7 example_server]
    usbDeviceArrived_rejection [of "accept_all\<lparr>matchConfiguration := (\<lambda>dev c. False)\<rparr>" 7 example_server]
  by (simp add: accept_all_def example_server_def FCServer_new_def probed_driver_def new_dev_def
      example_dev_def probe_actions_def verbose_line_def open_error_line_def
      LIBUSB_ERROR_NOT_FOUND_def LIBUSB_ERROR_NOT_SUPPORTED_def)

subsection \<open>Broadcast and flush\<close>

lemma write_loop_fields [simp]:
  "mColor (write_loop msg devs s) = mColor s"
  "mDevices (write_loop msg devs s) = mDevices s"
  "mVerbose (write_loop msg devs s) = mVerbose s"
  "win32 (write_loop msg devs s) = win32 s"
  "heap_next (write_loop msg devs s) = heap_next s"
  "mUSBDevices (write_loop msg devs s) = mUSBDevices s"
  "actions (write_loop msg devs s) = actions s @ map (\<lambda>dev. WriteMessage dev msg) devs"
  by (induction devs arbitrary: s) simp_all

lemma flush_loop_fields [simp]:
  "mColor (flush_loop devs s) = mColor s"
  "mDevices (flush_loop devs s) = mDevices s"
  "mVerbose (flush_loop devs s) = mVerbose s"
  "win32 (flush_loop devs s) = win32 s"
  "heap_next (flush_loop devs s) = heap_next s"
  "mUSBDevices (flush_loop devs s) = mUSBDevices s"
  "actions (flush_loop devs s) = actions s @ map Flush devs"
  by (induction devs arbitrary: s) simp_all

lemma cbMessage_fields [simp]:
  "mColor (cbMessage msg s) = mColor s"
  "mDevices (cbMessage msg s) = mDevices s"
  "mVerbose (cbMessage msg s) = mVerbose s"
  "win32 (cbMessage msg s) = win32 s"
  "heap_next (cbMessage msg s) = heap_next s"
  "mUSBDevices (cbMessage msg s) = mUSBDevices s"
  "actions (cbMessage msg s) =
     actions s @ Lock # map (\<lambda>dev. WriteMessage dev msg) (mUSBDevices s) @ [Unlock]"
  by (simp_all add: cbMessage_def Let_def)

lemma mainLoop_body_fields [simp]:
  "mColor (mainLoop_body err s) = mColor s"
  "mDevices (mainLoop_body err s) = mDevices s"
  "mVerbose (mainLoop_body err s) = mVerbose s"
  "win32 (mainLoop_body err s) = win32 s"
  "heap_next (mainLoop_body err s) = heap_next s"
  "mUSBDevices (mainLoop_body err s) = mUSBDevices s"
  "actions (mainLoop_body err s) =
     actions s @ (if err \<noteq> 0 then [Clog (Error_handling_events err)] else [])
       @ Lock # map Flush (mUSBDevices s) @ [Unlock]"
  by (simp_all add: mainLoop_body_def Let_def)

lemma count_writes:
  "length (filter ((\<lambda>a. a = WriteMessage dev m) \<circ> (\<lambda>d. WriteMessage d msg)) devs) =
     (if m = msg then count_list devs dev else 0)"
  by (induction devs) auto

text \<open>
  Claim C6. One call of \<^verbatim>\<open>cbMessage\<close> takes the lock, calls \<^verbatim>\<open>writeMessage\<close> with the
  message on the devices of the vector, one call per slot and in the order of the
  vector, and releases the lock; the vector is unchanged. A device that is not in the
  vector when the call starts gets no write. Nothing a write does can stop the loop:
  \<^verbatim>\<open>writeMessage\<close> returns nothing and the loop has no exit but its end.
\<close>

theorem cbMessage_broadcast:
  "actions (cbMessage msg s) =
     actions s @ Lock # map (\<lambda>dev. WriteMessage dev msg) (mUSBDevices s) @ [Unlock]
   \<and> mUSBDevices (cbMessage msg s) = mUSBDevices s
   \<and> length (filter (\<lambda>a. a = WriteMessage dev m)
        (drop (length (actions s)) (actions (cbMessage msg s)))) =
      (if m = msg then count_list (mUSBDevices s) dev else 0)"
  by (simp add: count_writes)

theorem cbMessage_broadcast_witness:
  "actions (cbMessage 5 (server_with [dev_at 0 1, dev_at 1 2, dev_at 2 3])) =
     [Lock, WriteMessage (dev_at 0 1) 5, WriteMessage (dev_at 1 2) 5,
      WriteMessage (dev_at 2 3) 5, Unlock]
   \<and> length (filter (\<lambda>a. a = WriteMessage (dev_at 3 4) 5)
        (actions (cbMessage 5 (server_with [dev_at 0 1, dev_at 1 2, dev_at 2 3])))) = 0"
  using cbMessage_broadcast [of 5 "server_with [dev_at 0 1, dev_at 1 2, dev_at 2 3]" "dev_at 3 4" 5]
  by (simp add: server_with_def FCServer_new_def dev_at_def)

subsection \<open>Detach\<close>

lemma usbDeviceLeft_iter_fields [simp]:
  "mColor (usbDeviceLeft_iter i s) = mColor s"
  "mDevices (usbDeviceLeft_iter i s) = mDevices s"
  "mVerbose (usbDeviceLeft_iter i s) = mVerbose s"
  "win32 (usbDeviceLeft_iter i s) = win32 s"
  "heap_next (usbDeviceLeft_iter i s) = heap_next s"
  "mUSBDevices (usbDeviceLeft_iter i s) = take i (mUSBDevices s) @ drop (Suc i) (mUSBDevices s)"
  "actions (usbDeviceLeft_iter i s) =
     actions s @ verbose_line (mVerbose s) (Removed (mUSBDevices s ! i))
       @ [Erase (mUSBDevices s ! i), Delete (mUSBDevices s ! i)]"
  by (simp_all add: usbDeviceLeft_iter_def Let_def verbose_line_def)

lemma usbDeviceLeft_loop_absent:
  "device \<notin> getDevice ` set devs \<Longrightarrow> usbDeviceLeft_loop device devs i s = s"
  by (induction devs arbitrary: i) auto

lemma usbDeviceLeft_loop_first:
  "device \<notin> getDevice ` set xs \<Longrightarrow> getDevice d = device \<Longrightarrow>
   usbDeviceLeft_loop device (xs @ d # ys) i s = usbDeviceLeft_iter (i + length xs) s"
  by (induction xs arbitrary: i) auto

lemma usbDeviceLeft_absent:
  "device \<notin> getDevice ` set (mUSBDevices s) \<Longrightarrow> usbDeviceLeft device s = s"
  by (simp add: usbDeviceLeft_def usbDeviceLeft_loop_absent)

lemma usbDeviceLeft_first:
  "mUSBDevices s = xs @ d # ys \<Longrightarrow> device \<notin> getDevice ` set xs \<Longrightarrow> getDevice d = device \<Longrightarrow>
   usbDeviceLeft device s = usbDeviceLeft_iter (length xs) s"
  by (simp add: usbDeviceLeft_def usbDeviceLeft_loop_first)

lemma first_with_handle:
  "device \<in> getDevice ` set devs \<Longrightarrow>
   \<exists>xs d ys. devs = xs @ d # ys \<and> getDevice d = device \<and> device \<notin> getDevice ` set xs"
proof (induction devs)
  case Nil
  then show ?case by simp
next
  case (Cons a devs)
  show ?case
  proof (cases "getDevice a = device")
    case True
    then have "a # devs = [] @ a # devs \<and> getDevice a = device \<and> device \<notin> getDevice ` set []"
      by simp
    then show ?thesis by blast
  next
    case False
    with Cons.prems have "device \<in> getDevice ` set devs" by auto
    from Cons.IH [OF this] obtain xs d ys where
      "devs = xs @ d # ys" "getDevice d = device" "device \<notin> getDevice ` set xs" by blast
    with False have "a # devs = (a # xs) @ d # ys \<and> getDevice d = device
      \<and> device \<notin> getDevice ` set (a # xs)" by auto
    then show ?thesis by blast
  qed
qed

lemma usbDeviceLeft_cases:
  "usbDeviceLeft device s = s \<or> (\<exists>i. usbDeviceLeft device s = usbDeviceLeft_iter i s)"
proof (cases "device \<in> getDevice ` set (mUSBDevices s)")
  case False
  then show ?thesis by (simp add: usbDeviceLeft_absent)
next
  case True
  from first_with_handle [OF this] obtain xs d ys where
    "mUSBDevices s = xs @ d # ys" "getDevice d = device" "device \<notin> getDevice ` set xs" by blast
  then have "usbDeviceLeft device s = usbDeviceLeft_iter (length xs) s"
    by (simp add: usbDeviceLeft_first)
  then show ?thesis by blast
qed

lemma usbDeviceLeft_cases_bounded:
  "usbDeviceLeft device s = s
   \<or> (\<exists>i < length (mUSBDevices s). usbDeviceLeft device s = usbDeviceLeft_iter i s)"
proof (cases "device \<in> getDevice ` set (mUSBDevices s)")
  case False
  then show ?thesis by (simp add: usbDeviceLeft_absent)
next
  case True
  from first_with_handle [OF this] obtain xs d ys where
    d: "mUSBDevices s = xs @ d # ys" "getDevice d = device" "device \<notin> getDevice ` set xs"
    by blast
  then have "usbDeviceLeft device s = usbDeviceLeft_iter (length xs) s"
    by (simp add: usbDeviceLeft_first)
  moreover from d(1) have "length xs < length (mUSBDevices s)" by simp
  ultimately show ?thesis by blast
qed

text \<open>
  Claim C8. \<^verbatim>\<open>usbDeviceLeft(device)\<close> leaves the server exactly as it is when no
  registered device has the native handle. Otherwise the first entry with the handle
  is erased from the vector and its object deleted, and nothing else changes in the
  vector.
\<close>

theorem usbDeviceLeft_detach:
  "(device \<notin> getDevice ` set (mUSBDevices s) \<longrightarrow> usbDeviceLeft device s = s)
   \<and> (device \<in> getDevice ` set (mUSBDevices s) \<longrightarrow>
        (\<exists>xs dev ys. mUSBDevices s = xs @ dev # ys \<and> getDevice dev = device
           \<and> device \<notin> getDevice ` set xs
           \<and> mUSBDevices (usbDeviceLeft device s) = xs @ ys
           \<and> actions (usbDeviceLeft device s) =
               actions s @ verbose_line (mVerbose s) (Removed dev) @ [Erase dev, Delete dev]))"
proof (intro conjI impI)
  assume "device \<notin> getDevice ` set (mUSBDevices s)"
  then show "usbDeviceLeft device s = s" by (rule usbDeviceLeft_absent)
next
  assume "device \<in> getDevice ` set (mUSBDevices s)"
  from first_with_handle [OF this] obtain xs dev ys where
    d: "mUSBDevices s = xs @ dev # ys" "getDevice dev = device" "device \<notin> getDevice ` set xs"
    by blast
  from d have "usbDeviceLeft device s = usbDeviceLeft_iter (length xs) s"
    by (simp add: usbDeviceLeft_first)
  with d have "mUSBDevices (usbDeviceLeft device s) = xs @ ys
    \<and> actions (usbDeviceLeft device s) =
        actions s @ verbose_line (mVerbose s) (Removed dev) @ [Erase dev, Delete dev]"
    by simp
  with d show "\<exists>xs dev ys. mUSBDevices s = xs @ dev # ys \<and> getDevice dev = device
           \<and> device \<notin> getDevice ` set xs
           \<and> mUSBDevices (usbDeviceLeft device s) = xs @ ys
           \<and> actions (usbDeviceLeft device s) =
               actions s @ verbose_line (mVerbose s) (Removed dev) @ [Erase dev, Delete dev]"
    by blast
qed

theorem usbDeviceLeft_detach_witness:
  "usbDeviceLeft 4 (server_with [dev_at 0 1, dev_at 1 2, dev_at 2 3])
     = server_with [dev_at 0 1, dev_at 1 2, dev_at 2 3]
   \<and> mUSBDevices (usbDeviceLeft 2 (server_with [dev_at 0 1, dev_at 1 2, dev_at 2 3]))
     = [dev_at 0 1, dev_at 2 3]
   \<and> actions (usbDeviceLeft 2 (server_with [dev_at 0 1, dev_at 1 2, dev_at 2 3]))
     = [Clog (Removed (dev_at 1 2)), Erase (dev_at 1 2), Delete (dev_at 1 2)]"
proof -
  have absent: "4 \<notin> getDevice ` set (mUSBDevices (server_with [dev_at 0 1, dev_at 1 2, dev_at 2 3]))"
    by (simp add: server_with_def dev_at_def)
  have present: "2 \<in> getDevice ` set (mUSBDevices (server_with [dev_at 0 1, dev_at 1 2, dev_at 2 3]))"
    by (simp add: server_with_def dev_at_def)
  from usbDeviceLeft_detach [of 4 "server_with [dev_at 0 1, dev_at 1 2, dev_at 2 3]"] absent
  have one: "usbDeviceLeft 4 (server_with [dev_at 0 1, dev_at 1 2, dev_at 2 3])
     = server_with [dev_at 0 1, dev_at 1 2, dev_at 2 3]"
    by blast
  from usbDeviceLeft_detach [of 2 "server_with [dev_at 0 1, dev_at 1 2, dev_at 2 3]"] present
  obtain xs dev ys where
    d: "mUSBDevices (server_with [dev_at 0 1, dev_at 1 2, dev_at 2 3]) = xs @ dev # ys"
      "getDevice dev = 2" "2 \<notin> getDevice ` set xs"
    and r: "mUSBDevices (usbDeviceLeft 2 (server_with [dev_at 0 1, dev_at 1 2, dev_at 2 3])) = xs @ ys"
      "actions (usbDeviceLeft 2 (server_with [dev_at 0 1, dev_at 1 2, dev_at 2 3])) =
         actions (server_with [dev_at 0 1, dev_at 1 2, dev_at 2 3])
           @ verbose_line (mVerbose (server_with [dev_at 0 1, dev_at 1 2, dev_at 2 3])) (Removed dev)
           @ [Erase dev, Delete dev]"
    by blast
  from d have "xs = [dev_at 0 1] \<and> dev = dev_at 1 2 \<and> ys = [dev_at 2 3]"
    by (auto simp: server_with_def dev_at_def append_eq_Cons_conv Cons_eq_append_conv)
  with r one show ?thesis
    by (simp add: server_with_def FCServer_new_def verbose_line_def)
qed

subsection \<open>Detach removes one entry\<close>

lemma takeWhile_tl_dropWhile_all:
  "\<forall>x \<in> set xs. P x \<Longrightarrow> takeWhile P xs @ tl (dropWhile P xs) = xs"
  by (induction xs) auto

text \<open>
  Claim C10. One call of \<^verbatim>\<open>usbDeviceLeft(device)\<close> removes at most one entry: the
  vector afterwards is the part before the first entry with the handle followed by
  everything after that entry, so later entries with the same handle stay registered;
  only the removed object is erased and deleted.
\<close>

theorem usbDeviceLeft_first_only:
  "mUSBDevices (usbDeviceLeft device s) =
     takeWhile (\<lambda>dev. getDevice dev \<noteq> device) (mUSBDevices s)
       @ tl (dropWhile (\<lambda>dev. getDevice dev \<noteq> device) (mUSBDevices s))
   \<and> filter (\<lambda>dev. getDevice dev = device) (mUSBDevices (usbDeviceLeft device s)) =
     tl (filter (\<lambda>dev. getDevice dev = device) (mUSBDevices s))
   \<and> actions (usbDeviceLeft device s) =
     actions s @ concat (map (\<lambda>dev. verbose_line (mVerbose s) (Removed dev) @ [Erase dev, Delete dev])
       (take 1 (filter (\<lambda>dev. getDevice dev = device) (mUSBDevices s))))"
proof (cases "device \<in> getDevice ` set (mUSBDevices s)")
  case False
  then have all: "\<forall>x \<in> set (mUSBDevices s). getDevice x \<noteq> device" by auto
  then have "filter (\<lambda>dev. getDevice dev = device) (mUSBDevices s) = []"
    by (simp add: filter_empty_conv)
  moreover note takeWhile_tl_dropWhile_all [OF all]
  ultimately show ?thesis using False by (simp add: usbDeviceLeft_absent)
next
  case True
  from first_with_handle [OF this] obtain xs dev ys where
    d: "mUSBDevices s = xs @ dev # ys" "getDevice dev = device" "device \<notin> getDevice ` set xs"
    by blast
  from d(3) have xs: "filter (\<lambda>dev. getDevice dev = device) xs = []"
    by (auto simp: filter_empty_conv)
  from d(3) have all: "\<And>x. x \<in> set xs \<Longrightarrow> getDevice x \<noteq> device" by auto
  from d(2) have tw: "takeWhile (\<lambda>dev. getDevice dev \<noteq> device) (xs @ dev # ys) = xs"
    and dw: "dropWhile (\<lambda>dev. getDevice dev \<noteq> device) (xs @ dev # ys) = dev # ys"
    by (simp_all add: takeWhile_append2 [OF all] dropWhile_append2 [OF all])
  from d have "usbDeviceLeft device s = usbDeviceLeft_iter (length xs) s"
    by (simp add: usbDeviceLeft_first)
  with d xs tw dw show ?thesis by simp
qed

theorem usbDeviceLeft_first_only_witness:
  "mUSBDevices (usbDeviceLeft 7 (server_with [dev_at 0 7, dev_at 1 8, dev_at 2 7]))
     = [dev_at 1 8, dev_at 2 7]
   \<and> actions (usbDeviceLeft 7 (server_with [dev_at 0 7, dev_at 1 8, dev_at 2 7]))
     = [Clog (Removed (dev_at 0 7)), Erase (dev_at 0 7), Delete (dev_at 0 7)]"
  using usbDeviceLeft_first_only [of 7 "server_with [dev_at 0 7, dev_at 1 8, dev_at 2 7]"]
  by (simp add: server_with_def FCServer_new_def dev_at_def verbose_line_def)

subsection \<open>The loops of the polling step\<close>

lemma is_new_loop_eq: "is_new_loop item devs b = (b \<and> item \<notin> getDevice ` set devs)"
  by (induction devs arbitrary: b) auto

lemma is_removed_loop_eq: "is_removed_loop usbdev items b = (b \<and> usbdev \<notin> set items)"
  by (induction items arbitrary: b) auto

lemma added_loop_none:
  "\<forall>x \<in> set list. x \<in> getDevice ` set (mUSBDevices s) \<Longrightarrow> added_loop drv list s = s"
  by (induction list) (simp_all add: is_new_loop_eq)

lemma added_loop_single:
  assumes "distinct list" and "h \<in> set list" and "h \<notin> getDevice ` set (mUSBDevices s)"
    and "\<forall>x \<in> set list. x \<noteq> h \<longrightarrow> x \<in> getDevice ` set (mUSBDevices s)"
  shows "added_loop drv list s = usbDeviceArrived drv h s"
  using assms
proof (induction list)
  case Nil
  then show ?case by simp
next
  case (Cons x list)
  show ?case
  proof (cases "x = h")
    case True
    from Cons.prems True have "\<forall>y \<in> set list. y \<in> getDevice ` set (mUSBDevices s)" by auto
    with usbDeviceArrived_handles_mono [of s drv h]
    have "\<forall>y \<in> set list. y \<in> getDevice ` set (mUSBDevices (usbDeviceArrived drv h s))" by blast
    then have "added_loop drv list (usbDeviceArrived drv h s) = usbDeviceArrived drv h s"
      by (rule added_loop_none)
    with True Cons.prems(3) show ?thesis by (simp add: is_new_loop_eq)
  next
    case False
    with Cons.prems have "x \<in> getDevice ` set (mUSBDevices s)" by simp
    moreover from Cons.prems False have "added_loop drv list s = usbDeviceArrived drv h s"
      by (intro Cons.IH) auto
    ultimately show ?thesis by (simp add: is_new_loop_eq)
  qed
qed

declare removed_loop.simps [simp del]

lemma removed_loop_done: "removed_loop list e e stale s = Inr s"
  by (subst removed_loop.simps) simp

lemma removed_loop_keep:
  assumes "i \<noteq> e" and "i < length (mUSBDevices s @ stale)"
    and "(mUSBDevices s @ stale) ! i \<notin> set (deleted (actions s))"
    and "getDevice ((mUSBDevices s @ stale) ! i) \<in> set list"
  shows "removed_loop list i e stale s = removed_loop list (Suc i) e stale s"
  using assms
  by (subst removed_loop.simps) (simp add: Let_def Delete_in_set is_removed_loop_eq)

lemma removed_loop_erase:
  assumes "i \<noteq> e" and "i < length (mUSBDevices s)"
    and "mUSBDevices s ! i \<notin> set (deleted (actions s))"
    and "getDevice (mUSBDevices s ! i) \<notin> set list"
  shows "removed_loop list i e stale s =
    removed_loop list (Suc i) e (last (mUSBDevices s) # stale) (usbDeviceLeft_iter i s)"
  using assms
  by (subst removed_loop.simps) (simp add: Let_def Delete_in_set is_removed_loop_eq nth_append)

lemma removed_loop_skip:
  assumes "i \<le> j" and "j \<le> e" and "j \<le> length (mUSBDevices s @ stale)"
    and "\<forall>k. i \<le> k \<and> k < j \<longrightarrow>
           (mUSBDevices s @ stale) ! k \<notin> set (deleted (actions s))
           \<and> getDevice ((mUSBDevices s @ stale) ! k) \<in> set list"
  shows "removed_loop list i e stale s = removed_loop list j e stale s"
  using assms
proof (induction "j - i" arbitrary: i)
  case 0
  then show ?case by simp
next
  case (Suc n)
  then have lt: "i < j" by simp
  with Suc.prems have "i \<noteq> e" "i < length (mUSBDevices s @ stale)" by simp_all
  moreover from Suc.prems lt have "(mUSBDevices s @ stale) ! i \<notin> set (deleted (actions s))"
    "getDevice ((mUSBDevices s @ stale) ! i) \<in> set list" by auto
  ultimately have "removed_loop list i e stale s = removed_loop list (Suc i) e stale s"
    by (rule removed_loop_keep)
  moreover have "removed_loop list (Suc i) e stale s = removed_loop list j e stale s"
  proof (rule Suc.hyps(1))
    show "n = j - Suc i" using Suc.hyps(2) by simp
    show "Suc i \<le> j" using lt by simp
    show "j \<le> e" by (rule Suc.prems(2))
    show "j \<le> length (mUSBDevices s @ stale)" by (rule Suc.prems(3))
    show "\<forall>k. Suc i \<le> k \<and> k < j \<longrightarrow>
           (mUSBDevices s @ stale) ! k \<notin> set (deleted (actions s))
           \<and> getDevice ((mUSBDevices s @ stale) ! k) \<in> set list"
      using Suc.prems(4) by auto
  qed
  ultimately show ?case by simp
qed

lemma removed_loop_preserves:
  assumes step: "\<And>i s. P s \<Longrightarrow> i < length (mUSBDevices s) \<Longrightarrow> P (usbDeviceLeft_iter i s)"
    and "removed_loop list i e stale s = Inr s'" and "P s"
  shows "P s'"
  using assms(2,3)
proof (induction list i e stale s rule: removed_loop.induct)
  case (1 list i e stale s)
  show ?case
  proof (cases "i = e")
    case True
    with "1.prems" show ?thesis by (simp add: removed_loop_done)
  next
    case False
    note ne = this
    from "1.prems"(1) ne have inb: "\<not> length (mUSBDevices s @ stale) \<le> i"
      by (subst (asm) removed_loop.simps) (auto split: if_splits)
    define dev where "dev = (mUSBDevices s @ stale) ! i"
    from "1.prems"(1) ne inb have nd: "Delete dev \<notin> set (actions s)"
      unfolding dev_def by (subst (asm) removed_loop.simps) (auto simp: Let_def split: if_splits)
    show ?thesis
    proof (cases "is_removed_loop (getDevice dev) list True")
      case True
      with "1.prems"(1) ne inb nd have il: "i < length (mUSBDevices s)"
        unfolding dev_def by (subst (asm) removed_loop.simps) (auto simp: Let_def split: if_splits)
      with "1.prems"(1) ne inb nd True have
        eq: "removed_loop list (Suc i) e (last (mUSBDevices s) # stale) (usbDeviceLeft_iter i s) = Inr s'"
        unfolding dev_def by (subst (asm) removed_loop.simps) (simp add: Let_def)
      have "P (usbDeviceLeft_iter i s)" using "1.prems"(2) il by (rule step)
      with "1.IH"(1) [OF ne inb dev_def nd True il eq] show ?thesis .
    next
      case False
      with "1.prems"(1) ne inb nd have
        eq: "removed_loop list (Suc i) e stale s = Inr s'"
        unfolding dev_def by (subst (asm) removed_loop.simps) (simp add: Let_def)
      from "1.IH"(2) [OF ne inb dev_def nd False eq "1.prems"(2)] show ?thesis .
    qed
  qed
qed

lemma stale_slot_in_tail:
  assumes "length xs < k" and "k < Suc (length xs + length ys)"
  shows "(xs @ ys @ [last (d # ys)]) ! k \<in> set ys"
proof (cases "k < length xs + length ys")
  case True
  with assms(1) have kl: "k - length xs < length ys" by simp
  from assms(1) have "(xs @ ys @ [last (d # ys)]) ! k = (ys @ [last (d # ys)]) ! (k - length xs)"
    by (simp add: nth_append)
  also from kl have "\<dots> = ys ! (k - length xs)" by (simp add: nth_append)
  finally show ?thesis using kl by simp
next
  case False
  with assms have k: "k = length xs + length ys" by simp
  with assms(1) have ne: "ys \<noteq> []" by auto
  from k have "(xs @ ys @ [last (d # ys)]) ! k = last (d # ys)"
    by (simp add: nth_append)
  with ne show ?thesis by simp
qed

lemma removed_loop_single:
  assumes reg: "mUSBDevices s = xs @ d # ys"
    and in_list: "\<forall>x \<in> set xs \<union> set ys. getDevice x \<in> set list"
    and out: "getDevice d \<notin> set list"
    and live: "\<forall>x \<in> set (mUSBDevices s). x \<notin> set (deleted (actions s))"
    and dist: "d \<notin> set ys"
  shows "removed_loop list 0 (length (mUSBDevices s)) [] s = Inr (usbDeviceLeft_iter (length xs) s)"
proof -
  let ?n = "length xs"
  let ?e = "length (mUSBDevices s)"
  let ?s' = "usbDeviceLeft_iter ?n s"
  let ?st = "[last (mUSBDevices s)]"
  have e: "?e = Suc (?n + length ys)" using reg by simp
  have A: "removed_loop list 0 ?e [] s = removed_loop list ?n ?e [] s"
  proof (rule removed_loop_skip)
    show "0 \<le> ?n" by simp
    show "?n \<le> ?e" using e by simp
    show "?n \<le> length (mUSBDevices s @ [])" using e by simp
    show "\<forall>k. 0 \<le> k \<and> k < ?n \<longrightarrow>
        (mUSBDevices s @ []) ! k \<notin> set (deleted (actions s))
        \<and> getDevice ((mUSBDevices s @ []) ! k) \<in> set list"
    proof (intro allI impI)
      fix k assume "0 \<le> k \<and> k < ?n"
      then have "(mUSBDevices s @ []) ! k = xs ! k" "xs ! k \<in> set xs"
        using reg by (simp_all add: nth_append)
      with in_list live reg show "(mUSBDevices s @ []) ! k \<notin> set (deleted (actions s))
        \<and> getDevice ((mUSBDevices s @ []) ! k) \<in> set list" by auto
    qed
  qed
  have dn: "mUSBDevices s ! ?n = d" using reg by simp
  have B: "removed_loop list ?n ?e [] s = removed_loop list (Suc ?n) ?e ?st ?s'"
  proof (rule removed_loop_erase)
    show "?n \<noteq> ?e" using e by simp
    show "?n < ?e" using e by simp
    show "mUSBDevices s ! ?n \<notin> set (deleted (actions s))" using dn live reg by simp
    show "getDevice (mUSBDevices s ! ?n) \<notin> set list" using dn out by simp
  qed
  have reg': "mUSBDevices ?s' = xs @ ys" using reg by simp
  have del': "deleted (actions ?s') = deleted (actions s) @ [d]" using dn by simp
  have buf: "mUSBDevices ?s' @ ?st = xs @ ys @ [last (d # ys)]" using reg reg' by simp
  have C: "removed_loop list (Suc ?n) ?e ?st ?s' = removed_loop list ?e ?e ?st ?s'"
  proof (rule removed_loop_skip)
    show "Suc ?n \<le> ?e" using e by simp
    show "?e \<le> ?e" by simp
    show "?e \<le> length (mUSBDevices ?s' @ ?st)" using e buf by simp
    show "\<forall>k. Suc ?n \<le> k \<and> k < ?e \<longrightarrow>
        (mUSBDevices ?s' @ ?st) ! k \<notin> set (deleted (actions ?s'))
        \<and> getDevice ((mUSBDevices ?s' @ ?st) ! k) \<in> set list"
    proof (intro allI impI)
      fix k assume k: "Suc ?n \<le> k \<and> k < ?e"
      then have "(xs @ ys @ [last (d # ys)]) ! k \<in> set ys"
        using e by (intro stale_slot_in_tail) simp_all
      then have m: "(mUSBDevices ?s' @ ?st) ! k \<in> set ys" using buf by simp
      then have "(mUSBDevices ?s' @ ?st) ! k \<noteq> d" using dist by auto
      moreover from m have "(mUSBDevices ?s' @ ?st) ! k \<notin> set (deleted (actions s))"
        using live reg by auto
      moreover from m have "getDevice ((mUSBDevices ?s' @ ?st) ! k) \<in> set list"
        using in_list by auto
      ultimately show "(mUSBDevices ?s' @ ?st) ! k \<notin> set (deleted (actions ?s'))
        \<and> getDevice ((mUSBDevices ?s' @ ?st) ! k) \<in> set list"
        using del' by simp
    qed
  qed
  from A B C show ?thesis by (simp add: removed_loop_done)
qed

lemma removed_loop_nothing:
  assumes "\<forall>x \<in> set (mUSBDevices s). getDevice x \<in> set list \<and> x \<notin> set (deleted (actions s))"
  shows "removed_loop list 0 (length (mUSBDevices s)) [] s = Inr s"
proof -
  have "removed_loop list 0 (length (mUSBDevices s)) [] s =
      removed_loop list (length (mUSBDevices s)) (length (mUSBDevices s)) [] s"
    using assms by (intro removed_loop_skip) auto
  then show ?thesis by (simp add: removed_loop_done)
qed

lemma step_Poll_Inr:
  assumes "step (Poll drv r) s = Inr s'"
  shows "\<exists>b. usbHotplugPoll drv r s = Inr (b, s')"
proof (cases "usbHotplugPoll drv r s")
  case (Inl f)
  with assms show ?thesis by simp
next
  case (Inr p)
  with assms have "snd p = s'" by simp
  then have "p = (fst p, s')" by (cases p) simp
  with Inr have "usbHotplugPoll drv r s = Inr (fst p, s')" by (simp only:)
  then show ?thesis ..
qed

subsection \<open>The registry stays live in every run\<close>

lemma live_registry_iff:
  "live_registry s \<longleftrightarrow>
     distinct (map objid (mUSBDevices s))
     \<and> (\<forall>dev \<in> set (mUSBDevices s). objid dev < heap_next s \<and> dev \<notin> set (deleted (actions s)))
     \<and> (\<forall>dev \<in> set (deleted (actions s)). objid dev < heap_next s)"
  by (simp add: live_registry_def list_all_iff)

lemma live_registry_act:
  "deleted [a] = [] \<Longrightarrow> live_registry s \<Longrightarrow> live_registry (act a s)"
  by (simp add: live_registry_iff)

text \<open>
  The condition \<open>live_registry\<close>, under which the polling step is analysed below,
  holds in every state the server reaches from its construction.
\<close>

lemma live_registry_quiet:
  assumes "live_registry s" and "actions s' = actions s @ tr" and "deleted tr = []"
    and "mUSBDevices s' = mUSBDevices s" and "heap_next s' = heap_next s"
  shows "live_registry s'"
  using assms by (simp add: live_registry_iff)

lemma live_registry_usbDeviceArrived:
  assumes "live_registry s"
  shows "live_registry (usbDeviceArrived drv device s)"
proof (cases "probed_driver drv device")
  case None
  then have "accepted drv device s = None" by (simp add: accepted_def)
  with None assms show ?thesis
    by (simp add: live_registry_iff usbDeviceArrived_mUSBDevices usbDeviceArrived_actions
        usbDeviceArrived_heap_next arrival_actions_projections)
next
  case (Some d)
  have fresh: "\<forall>dev \<in> set (mUSBDevices s). objid dev \<noteq> heap_next s"
    using assms by (auto simp: live_registry_iff)
  show ?thesis
  proof (cases "accepted drv device s")
    case None
    with Some assms fresh show ?thesis
      by (auto simp: live_registry_iff usbDeviceArrived_mUSBDevices usbDeviceArrived_actions
          usbDeviceArrived_heap_next arrival_actions_projections new_dev_def less_Suc_eq)
  next
    case (Some dev)
    note acc = this
    from accepted_Some [OF this] obtain d' where
      dev: "getDevice dev = device" "objid dev = heap_next s"
        "probed_driver drv device = Some d'" by blast
    have "dev \<notin> set (deleted (actions s))"
      using assms dev(2) by (auto simp: live_registry_iff)
    moreover have "objid dev \<notin> objid ` set (mUSBDevices s)"
      using fresh dev(2) by auto
    ultimately show ?thesis using assms acc dev
      by (auto simp: live_registry_iff usbDeviceArrived_mUSBDevices usbDeviceArrived_actions
          usbDeviceArrived_heap_next arrival_actions_projections less_Suc_eq)
  qed
qed

lemma distinct_take_drop:
  "distinct xs \<Longrightarrow> distinct (take i xs @ drop (Suc i) xs)"
proof -
  assume d: "distinct xs"
  have "set (take i xs) \<inter> set (drop (Suc i) xs) = {}"
    using d set_take_disj_set_drop_if_distinct [of xs i "Suc i"] by simp
  with d show ?thesis by simp
qed

lemma nth_not_in_take_drop:
  "distinct xs \<Longrightarrow> i < length xs \<Longrightarrow> xs ! i \<notin> set (take i xs @ drop (Suc i) xs)"
proof -
  assume d: "distinct xs" and i: "i < length xs"
  have "xs = take i xs @ xs ! i # drop (Suc i) xs"
    using i by (simp add: id_take_nth_drop)
  then have "distinct (take i xs @ xs ! i # drop (Suc i) xs)" using d by simp
  then show ?thesis by auto
qed

lemma set_take_drop_subset: "set (take i xs @ drop (Suc i) xs) \<subseteq> set xs"
  using set_take_subset [of i xs] set_drop_subset [of "Suc i" xs] by auto

lemma live_registry_usbDeviceLeft_iter:
  assumes "live_registry s" and "i < length (mUSBDevices s)"
  shows "live_registry (usbDeviceLeft_iter i s)"
proof -
  let ?xs = "mUSBDevices s"
  let ?ys = "take i ?xs @ drop (Suc i) ?xs"
  from assms(1) have d: "distinct (map objid ?xs)" by (simp add: live_registry_iff)
  then have dx: "distinct ?xs" by (simp add: distinct_map)
  from distinct_take_drop [OF d, of i] have 1: "distinct (map objid ?ys)"
    by (simp add: take_map drop_map)
  have sub: "set ?ys \<subseteq> set ?xs" by (rule set_take_drop_subset)
  have notin: "?xs ! i \<notin> set ?ys" using dx assms(2) by (rule nth_not_in_take_drop)
  have mem: "?xs ! i \<in> set ?xs" using assms(2) by simp
  from assms(1) sub notin mem 1 show ?thesis
    by (auto simp: live_registry_iff)
qed

lemma live_registry_usbDeviceLeft:
  "live_registry s \<Longrightarrow> live_registry (usbDeviceLeft device s)"
  using usbDeviceLeft_cases_bounded [of device s] live_registry_usbDeviceLeft_iter [of s]
  by metis

lemma live_registry_cbMessage: "live_registry s \<Longrightarrow> live_registry (cbMessage msg s)"
  by (rule live_registry_quiet [where s = s and s' = "cbMessage msg s"
        and tr = "Lock # map (\<lambda>dev. WriteMessage dev msg) (mUSBDevices s) @ [Unlock]"])
    simp_all

lemma live_registry_mainLoop_body: "live_registry s \<Longrightarrow> live_registry (mainLoop_body err s)"
  by (rule live_registry_quiet [where s = s and s' = "mainLoop_body err s"
        and tr = "(if err \<noteq> 0 then [Clog (Error_handling_events err)] else [])
          @ Lock # map Flush (mUSBDevices s) @ [Unlock]"])
    simp_all

lemma live_registry_cbHotplug:
  "live_registry s \<Longrightarrow> live_registry (cbHotplug drv device event s)"
  unfolding cbHotplug_def Let_def
  by (intro live_registry_act)
    (simp_all add: live_registry_usbDeviceLeft live_registry_usbDeviceArrived live_registry_act)

lemma live_registry_added_loop: "live_registry s \<Longrightarrow> live_registry (added_loop drv list s)"
proof (induction list arbitrary: s)
  case Nil
  then show ?case by simp
next
  case (Cons item list)
  show ?case
  proof (cases "is_new_loop item (mUSBDevices s) True")
    case True
    from Cons.prems have "live_registry (usbDeviceArrived drv item s)"
      by (rule live_registry_usbDeviceArrived)
    then have "live_registry (added_loop drv list (usbDeviceArrived drv item s))"
      by (rule Cons.IH)
    with True show ?thesis by simp
  next
    case False
    with Cons.IH [OF Cons.prems] show ?thesis by simp
  qed
qed

lemma live_registry_removed_loop:
  assumes "removed_loop list i e stale s = Inr s'" and "live_registry s"
  shows "live_registry s'"
  using live_registry_usbDeviceLeft_iter assms
  by (rule removed_loop_preserves [where P = live_registry])

lemma live_registry_usbHotplugPoll:
  assumes "usbHotplugPoll drv r s = Inr (b, s')" and "live_registry s"
  shows "live_registry s'"
proof (cases r)
  case (LIBUSB_ERROR c)
  with assms(1) have "s' = act (Clog (Error_polling c)) s"
    by (simp add: usbHotplugPoll_def)
  with assms(2) show ?thesis by (simp add: live_registry_act)
next
  case (Device_list list)
  let ?s2 = "added_loop drv list (act Lock s)"
  from assms(2) have d2: "live_registry ?s2"
    by (intro live_registry_added_loop live_registry_act) simp_all
  show ?thesis
  proof (cases "removed_loop list 0 (length (mUSBDevices ?s2)) [] ?s2")
    case (Inl f)
    with assms(1) Device_list show ?thesis by (simp add: usbHotplugPoll_def Let_def)
  next
    case (Inr s3)
    with assms(1) Device_list have "s' = act Unlock s3"
      by (simp add: usbHotplugPoll_def Let_def)
    moreover from live_registry_removed_loop [OF Inr d2] have "live_registry s3" .
    ultimately show ?thesis by (simp add: live_registry_act)
  qed
qed

lemma live_registry_step:
  assumes "step ev s = Inr s'" and "live_registry s"
  shows "live_registry s'"
proof (cases ev)
  case (Hotplug drv device event)
  from assms(1) have "s' = cbHotplug drv device event s"
    by (simp only: Hotplug step.simps sum.inject)
  with assms(2) show ?thesis by (simp only: live_registry_cbHotplug)
next
  case (Message msg)
  from assms(1) have "s' = cbMessage msg s"
    by (simp only: Message step.simps sum.inject)
  with assms(2) show ?thesis by (simp only: live_registry_cbMessage)
next
  case (Poll drv r)
  from assms(1) have "step (Poll drv r) s = Inr s'" by (simp only: Poll)
  from step_Poll_Inr [OF this] obtain b where "usbHotplugPoll drv r s = Inr (b, s')" by blast
  from live_registry_usbHotplugPoll [OF this assms(2)] show ?thesis .
next
  case (MainLoop err)
  from assms(1) have "s' = mainLoop_body err s"
    by (simp only: MainLoop step.simps sum.inject)
  with assms(2) show ?thesis by (simp only: live_registry_mainLoop_body)
qed

lemma live_registry_run:
  assumes "run evs s = Inr s'" and "live_registry s"
  shows "live_registry s'"
  using assms
proof (induction evs arbitrary: s)
  case Nil
  then show ?case by simp
next
  case (Cons ev evs)
  show ?case
  proof (cases "step ev s")
    case (Inl f)
    with Cons.prems(1) show ?thesis by simp
  next
    case (Inr s1)
    with Cons.prems(1) have "run evs s1 = Inr s'" by simp
    moreover from Inr Cons.prems(2) have "live_registry s1" by (rule live_registry_step)
    ultimately show ?thesis by (rule Cons.IH)
  qed
qed

lemma live_registry_new: "live_registry (FCServer_new color devices verbose w)"
  by (simp add: live_registry_def FCServer_new_def)

lemma live_registry_reachable:
  "run evs (FCServer_new color devices verbose w) = Inr s \<Longrightarrow> live_registry s"
  by (erule live_registry_run) (rule live_registry_new)

subsection \<open>One poll: one device gone, one device new\<close>

text \<open>
  Claim C4, as amended. The registered native devices are 1, 2, 3 (in any order in the
  vector) and the enumeration lists 2, 3, 4 (in any order, each once). Then the poll
  returns true, and what it does between taking and releasing the lock is exactly
  \<^verbatim>\<open>usbDeviceArrived\<close> for 4 followed by \<^verbatim>\<open>usbDeviceLeft\<close> for 1. The devices
  registered afterwards are 2, 3, 4 when the arrival of 4 is accepted (a static probe
  accepts it, it opens, passes the probe after opening and matches an entry), and 2, 3
  when it is rejected. The objects registered for 2 and 3 stay the same objects, and no
  action of the poll (probe, construction, open, further probe, match, removal) is
  about 2 or 3.
\<close>

theorem usbHotplugPoll_diff:
  assumes "live_registry s"
    and "distinct (map getDevice (mUSBDevices s))"
    and "getDevice ` set (mUSBDevices s) = {1, 2, 3}"
    and "distinct list" and "set list = {2, 3, 4}"
  shows "\<exists>s'. usbHotplugPoll drv (Device_list list) s = Inr (True, s')
     \<and> s' = act Unlock (usbDeviceLeft 1 (usbDeviceArrived drv 4 (act Lock s)))
     \<and> getDevice ` set (mUSBDevices s') =
         (case accepted drv 4 s of None \<Rightarrow> {2, 3} | Some dev \<Rightarrow> {2, 3, 4})
     \<and> (\<forall>dev \<in> set (mUSBDevices s). getDevice dev \<noteq> 1 \<longrightarrow> dev \<in> set (mUSBDevices s'))
     \<and> action_handle ` set (drop (length (actions s)) (actions s')) \<subseteq> {None, Some 4, Some 1}"
proof -
  let ?s1 = "act Lock s"
  let ?s2 = "usbDeviceArrived drv 4 ?s1"
  let ?s3 = "usbDeviceLeft 1 ?s2"
  let ?s' = "act Unlock ?s3"
  have added: "added_loop drv list ?s1 = ?s2"
    using assms(3-5) by (intro added_loop_single) auto
  have live2: "live_registry ?s2"
    using assms(1) by (intro live_registry_usbDeviceArrived live_registry_act) simp_all
  have acc: "accepted drv 4 ?s1 = accepted drv 4 s"
    by (rule accepted_act)
  have reg2: "mUSBDevices ?s2 =
      (case accepted drv 4 s of None \<Rightarrow> mUSBDevices s | Some dev \<Rightarrow> mUSBDevices s @ [dev])"
    by (simp add: usbDeviceArrived_mUSBDevices acc split: option.splits)
  have h2: "getDevice ` set (mUSBDevices ?s2) =
      (case accepted drv 4 s of None \<Rightarrow> {1, 2, 3} | Some dev \<Rightarrow> {1, 2, 3, 4})"
    using assms(3) accepted_Some [of drv 4 s] by (auto simp: reg2 split: option.splits)
  have d2: "distinct (map getDevice (mUSBDevices ?s2))"
    using assms(2,3) accepted_Some [of drv 4 s] by (auto simp: reg2 split: option.splits)
  have "1 \<in> getDevice ` set (mUSBDevices ?s2)"
    using h2 by (simp split: option.splits)
  from first_with_handle [OF this] obtain xs d ys where
    dec: "mUSBDevices ?s2 = xs @ d # ys" "getDevice d = 1" "1 \<notin> getDevice ` set xs"
    by blast
  from d2 dec have ny: "1 \<notin> getDevice ` set ys" by auto
  have nxs: "getDevice x \<noteq> 1" if "x \<in> set xs \<union> set ys" for x
  proof
    assume "getDevice x = 1"
    with that have "1 \<in> getDevice ` set xs \<or> 1 \<in> getDevice ` set ys"
      by (metis UnE imageI)
    with dec(3) ny show False by simp
  qed
  have dny: "d \<notin> set ys"
  proof
    assume "d \<in> set ys"
    then have "getDevice d \<in> getDevice ` set ys" by (rule imageI)
    with dec(2) ny show False by simp
  qed
  have others: "\<forall>x \<in> set xs \<union> set ys. getDevice x \<in> set list"
  proof
    fix x assume x: "x \<in> set xs \<union> set ys"
    then have "getDevice x \<noteq> 1" by (rule nxs)
    moreover from x dec(1) have "getDevice x \<in> getDevice ` set (mUSBDevices ?s2)" by auto
    ultimately show "getDevice x \<in> set list"
      using h2 assms(5) by (auto split: option.splits)
  qed
  have out: "getDevice d \<notin> set list" using dec(2) assms(5) by simp
  have live: "\<forall>x \<in> set (mUSBDevices ?s2). x \<notin> set (deleted (actions ?s2))"
    using live2 by (simp add: live_registry_iff)
  have left: "?s3 = usbDeviceLeft_iter (length xs) ?s2"
    by (rule usbDeviceLeft_first [OF dec(1) dec(3) dec(2)])
  have removed: "removed_loop list 0 (length (mUSBDevices ?s2)) [] ?s2 = Inr ?s3"
    unfolding left using dec(1) others out live dny by (rule removed_loop_single)
  have poll: "usbHotplugPoll drv (Device_list list) s = Inr (True, ?s')"
    by (simp add: usbHotplugPoll_def Let_def added removed)
  have reg3: "mUSBDevices ?s3 = xs @ ys" unfolding left using dec(1) by simp
  have ins: "getDevice ` set (mUSBDevices ?s2) = insert 1 (getDevice ` set (xs @ ys))"
    using dec(1,2) by auto
  have notin: "1 \<notin> getDevice ` set (xs @ ys)" using dec(3) ny by auto
  have h3: "getDevice ` set (mUSBDevices ?s') =
      (case accepted drv 4 s of None \<Rightarrow> {2, 3} | Some dev \<Rightarrow> {2, 3, 4})"
  proof (cases "accepted drv 4 s")
    case None
    with h2 ins have "insert 1 (getDevice ` set (xs @ ys)) = insert 1 {2, 3}" by simp
    moreover have "(1::nat) \<notin> {2, 3}" by simp
    ultimately have "getDevice ` set (xs @ ys) = {2, 3}"
      using notin by (metis insert_ident)
    with None reg3 show ?thesis by simp
  next
    case (Some dev)
    with h2 ins have "insert 1 (getDevice ` set (xs @ ys)) = insert 1 {2, 3, 4}" by simp
    moreover have "(1::nat) \<notin> {2, 3, 4}" by simp
    ultimately have "getDevice ` set (xs @ ys) = {2, 3, 4}"
      using notin by (metis insert_ident)
    with Some reg3 show ?thesis by simp
  qed
  have keep: "\<forall>dev \<in> set (mUSBDevices s). getDevice dev \<noteq> 1 \<longrightarrow> dev \<in> set (mUSBDevices ?s')"
  proof (intro ballI impI)
    fix dev assume "dev \<in> set (mUSBDevices s)" "getDevice dev \<noteq> 1"
    then have "dev \<in> set (mUSBDevices ?s2)" "dev \<noteq> d"
      using dec(2) by (auto simp: reg2 split: option.splits)
    then show "dev \<in> set (mUSBDevices ?s')" using dec(1) reg3 by auto
  qed
  have dn: "mUSBDevices ?s2 ! length xs = d" using dec(1) by simp
  have acts: "drop (length (actions s)) (actions ?s') =
      Lock # arrival_actions drv 4 ?s1 @ verbose_line (mVerbose s) (Removed d)
        @ [Erase d, Delete d, Unlock]"
    unfolding left using dn by (simp add: usbDeviceArrived_actions)
  have handles: "action_handle ` set (drop (length (actions s)) (actions ?s')) \<subseteq> {None, Some 4, Some 1}"
    unfolding acts using arrival_actions_handles [of drv 4 ?s1] dec(2)
    by (auto simp: action_handle_def verbose_line_def)
  from poll h3 keep handles show ?thesis by blast
qed

theorem usbHotplugPoll_diff_witness:
  "map_sum id (\<lambda>(continue, s'). (continue, mUSBDevices s', actions s'))
     (usbHotplugPoll accept_all (Device_list [2, 3, 4])
        (server_with [dev_at 0 1, dev_at 1 2, dev_at 2 3]))
   = Inr (True, [dev_at 1 2, dev_at 2 3, dev_at 3 4],
       [Lock, Probe FCDevice 4, New (dev_at 3 4), Open (dev_at 3 4),
        ProbeAfterOpening (dev_at 3 4), MatchConfiguration (dev_at 3 4) 10,
        WriteColorCorrection (dev_at 3 4) 0, Push_back (dev_at 3 4), Clog (Attached (dev_at 3 4)),
        Clog (Removed (dev_at 0 1)), Erase (dev_at 0 1), Delete (dev_at 0 1), Unlock])"
proof -
  let ?s = "server_with [dev_at 0 1, dev_at 1 2, dev_at 2 3]"
  have 1: "live_registry ?s"
    by (simp add: live_registry_def server_with_def FCServer_new_def dev_at_def)
  have 2: "distinct (map getDevice (mUSBDevices ?s))"
    by (simp add: server_with_def dev_at_def)
  have 3: "getDevice ` set (mUSBDevices ?s) = {1, 2, 3}"
    by (simp add: server_with_def dev_at_def)
  have 4: "distinct [2, 3, 4 :: nat]" by simp
  have 5: "set [2, 3, 4 :: nat] = {2, 3, 4}" by simp
  from usbHotplugPoll_diff [OF 1 2 3 4 5, of accept_all]
  have "usbHotplugPoll accept_all (Device_list [2, 3, 4]) ?s =
      Inr (True, act Unlock (usbDeviceLeft 1 (usbDeviceArrived accept_all 4 (act Lock ?s))))"
    by blast
  moreover have "mUSBDevices (usbDeviceArrived accept_all 4 (act Lock ?s)) =
      [dev_at 0 1, dev_at 1 2, dev_at 2 3, dev_at 3 4]"
    by (simp add: usbDeviceArrived_mUSBDevices accepted_def accept_all_def probed_driver_def
        server_with_def FCServer_new_def dev_at_def new_dev_def)
  moreover have "actions (usbDeviceArrived accept_all 4 (act Lock ?s)) =
      [Lock, Probe FCDevice 4, New (dev_at 3 4), Open (dev_at 3 4),
        ProbeAfterOpening (dev_at 3 4), MatchConfiguration (dev_at 3 4) 10,
        WriteColorCorrection (dev_at 3 4) 0, Push_back (dev_at 3 4), Clog (Attached (dev_at 3 4))]"
    by (simp add: usbDeviceArrived_actions arrival_actions_def open_actions_def accept_all_def
        probed_driver_def probe_actions_def verbose_line_def
        server_with_def FCServer_new_def dev_at_def new_dev_def)
  ultimately show ?thesis
    by (simp add: usbDeviceLeft_def dev_at_def verbose_line_def server_with_def FCServer_new_def)
qed

text \<open>
  Without the condition on the arrival the registered devices need not be 2, 3, 4: when
  \<^verbatim>\<open>open()\<close> fails for device 4 the poll constructs its object, deletes it again and
  removes device 1, and the devices registered afterwards are 2 and 3.
\<close>

theorem usbHotplugPoll_diff_counterexample:
  "map_sum id (\<lambda>(continue, s'). (continue, map getDevice (mUSBDevices s'), actions s'))
     (usbHotplugPoll open_fails (Device_list [2, 3, 4])
        (server_with [dev_at 0 1, dev_at 1 2, dev_at 2 3]))
   = Inr (True, [2, 3],
       [Lock, Probe FCDevice 4, New (dev_at 3 4), Open (dev_at 3 4),
        Clog (Error_opening (dev_at 3 4) (- 4)), Delete (dev_at 3 4),
        Clog (Removed (dev_at 0 1)), Erase (dev_at 0 1), Delete (dev_at 0 1), Unlock])"
  by code_simp

subsection \<open>The removal loop when several devices have gone\<close>

text \<open>
  The removal loop of the poll erases from the vector it iterates over. With one device
  gone this does no harm (claim C4). With more than one the loop leaves the vector:
  with devices 1 and 2 registered and nothing enumerated it erases the object of 1, finds
  the object of 2 in the slot that dropped out of the vector and calls \<^verbatim>\<open>erase\<close> on
  that slot; with 1, 2, 3 registered and only 2 enumerated it erases 1 and 3 and then
  calls \<^verbatim>\<open>getDevice\<close> through the stale pointer to the deleted object of 3; with
  1, 2, 3 registered and only 3 enumerated it erases 1, steps over 2 and returns with 2
  still registered.
\<close>

theorem removal_loop_several_removals:
  "usbHotplugPoll accept_all (Device_list []) (server_with [dev_at 0 1, dev_at 1 2])
     = Inl (Erase_outside_vector 1)
   \<and> usbHotplugPoll accept_all (Device_list [2]) (server_with [dev_at 0 1, dev_at 1 2, dev_at 2 3])
     = Inl (Call_on_deleted (dev_at 2 3))
   \<and> map_sum id (\<lambda>(continue, s'). (continue, mUSBDevices s'))
       (usbHotplugPoll accept_all (Device_list [3]) (server_with [dev_at 0 1, dev_at 1 2, dev_at 2 3]))
     = Inr (True, [dev_at 1 2, dev_at 2 3])"
  by code_simp

subsection \<open>No native device is registered twice\<close>

lemma handles_act [simp]: "handles (act a s) = handles s"
  by (simp add: handles_def)

lemma distinct_handles_usbDeviceArrived:
  assumes "distinct (handles s)" and "device \<notin> set (handles s)"
  shows "distinct (handles (usbDeviceArrived drv device s))"
proof (cases "accepted drv device s")
  case None
  with assms show ?thesis by (simp add: handles_def usbDeviceArrived_mUSBDevices)
next
  case (Some dev)
  from accepted_Some [OF this] have "getDevice dev = device" by simp
  with Some assms show ?thesis by (simp add: handles_def usbDeviceArrived_mUSBDevices)
qed

lemma distinct_handles_usbDeviceLeft_iter:
  assumes "distinct (handles s)"
  shows "distinct (handles (usbDeviceLeft_iter i s))"
  using distinct_take_drop [OF assms [unfolded handles_def], of i]
  by (simp add: handles_def take_map drop_map)

lemma distinct_handles_usbDeviceLeft:
  "distinct (handles s) \<Longrightarrow> distinct (handles (usbDeviceLeft device s))"
  using usbDeviceLeft_cases [of device s] distinct_handles_usbDeviceLeft_iter [of s]
  by auto

lemma distinct_handles_added_loop:
  "distinct (handles s) \<Longrightarrow> distinct (handles (added_loop drv list s))"
proof (induction list arbitrary: s)
  case Nil
  then show ?case by simp
next
  case (Cons item list)
  show ?case
  proof (cases "is_new_loop item (mUSBDevices s) True")
    case True
    then have "item \<notin> set (handles s)" by (simp add: is_new_loop_eq handles_def)
    with Cons.prems have "distinct (handles (usbDeviceArrived drv item s))"
      by (rule distinct_handles_usbDeviceArrived)
    then have "distinct (handles (added_loop drv list (usbDeviceArrived drv item s)))"
      by (rule Cons.IH)
    with True show ?thesis by simp
  next
    case False
    with Cons.IH [OF Cons.prems] show ?thesis by simp
  qed
qed

lemma distinct_handles_removed_loop:
  assumes "removed_loop list i e stale s = Inr s'" and "distinct (handles s)"
  shows "distinct (handles s')"
  using distinct_handles_usbDeviceLeft_iter assms
  by (rule removed_loop_preserves [where P = "\<lambda>s. distinct (handles s)"])

lemma distinct_handles_usbHotplugPoll:
  assumes "usbHotplugPoll drv r s = Inr (b, s')" and "distinct (handles s)"
  shows "distinct (handles s')"
proof (cases r)
  case (LIBUSB_ERROR c)
  with assms show ?thesis by (auto simp: usbHotplugPoll_def)
next
  case (Device_list list)
  let ?s2 = "added_loop drv list (act Lock s)"
  from assms(2) have d2: "distinct (handles ?s2)"
    by (intro distinct_handles_added_loop) simp
  from assms(1) Device_list obtain s3 where
    3: "removed_loop list 0 (length (mUSBDevices ?s2)) [] ?s2 = Inr s3" and "s' = act Unlock s3"
    by (auto simp: usbHotplugPoll_def Let_def split: sum.splits)
  from distinct_handles_removed_loop [OF 3 d2] \<open>s' = act Unlock s3\<close> show ?thesis by simp
qed

lemma distinct_handles_cbHotplug:
  assumes "distinct (handles s)"
    and "event AND LIBUSB_HOTPLUG_EVENT_DEVICE_ARRIVED = 0 \<or> device \<notin> set (handles s)"
  shows "distinct (handles (cbHotplug drv device event s))"
proof -
  define arrived where "arrived \<longleftrightarrow> event AND LIBUSB_HOTPLUG_EVENT_DEVICE_ARRIVED \<noteq> 0"
  define left where "left \<longleftrightarrow> event AND LIBUSB_HOTPLUG_EVENT_DEVICE_LEFT \<noteq> 0"
  define s2 where "s2 = (if arrived then usbDeviceArrived drv device (act Lock s) else act Lock s)"
  define s3 where "s3 = (if left then usbDeviceLeft device s2 else s2)"
  have eq: "cbHotplug drv device event s = act Unlock s3"
    unfolding s3_def s2_def arrived_def left_def by (simp only: cbHotplug_def Let_def)
  have d2: "distinct (handles s2)"
  proof (cases arrived)
    case True
    with assms(2) have "device \<notin> set (handles (act Lock s))"
      unfolding arrived_def by simp
    with assms(1) True show ?thesis
      unfolding s2_def by (simp add: distinct_handles_usbDeviceArrived)
  next
    case False
    with assms(1) show ?thesis unfolding s2_def by simp
  qed
  then have "distinct (handles s3)"
    unfolding s3_def by (simp add: distinct_handles_usbDeviceLeft)
  then show ?thesis unfolding eq by simp
qed

lemma arrival_is_new_Hotplug:
  "arrival_is_new (Hotplug drv device event) s \<longleftrightarrow>
     event AND LIBUSB_HOTPLUG_EVENT_DEVICE_ARRIVED = 0 \<or> device \<notin> set (handles s)"
  by (simp add: arrival_is_new_def handles_def list_all_iff image_iff) blast

lemma distinct_handles_step:
  assumes "step ev s = Inr s'" and "arrival_is_new ev s" and "distinct (handles s)"
  shows "distinct (handles s')"
proof (cases ev)
  case (Hotplug drv device event)
  from assms(2) have "event AND LIBUSB_HOTPLUG_EVENT_DEVICE_ARRIVED = 0
      \<or> device \<notin> set (handles s)"
    by (simp only: Hotplug arrival_is_new_Hotplug)
  then have "distinct (handles (cbHotplug drv device event s))"
    by (rule distinct_handles_cbHotplug [OF assms(3)])
  moreover from assms(1) have "s' = cbHotplug drv device event s"
    by (simp only: Hotplug step.simps sum.inject)
  ultimately show ?thesis by (simp only:)
next
  case (Message msg)
  from assms(1) have "s' = cbMessage msg s"
    by (simp only: Message step.simps sum.inject)
  with assms(3) show ?thesis by (simp add: handles_def)
next
  case (Poll drv r)
  from assms(1) have "step (Poll drv r) s = Inr s'" by (simp only: Poll)
  from step_Poll_Inr [OF this] obtain b where "usbHotplugPoll drv r s = Inr (b, s')" by blast
  from distinct_handles_usbHotplugPoll [OF this assms(3)] show ?thesis .
next
  case (MainLoop err)
  from assms(1) have "s' = mainLoop_body err s"
    by (simp only: MainLoop step.simps sum.inject)
  with assms(3) show ?thesis by (simp add: handles_def)
qed

lemma distinct_handles_run:
  assumes "run evs s = Inr s'" and "arrivals_are_new evs s" and "distinct (handles s)"
  shows "distinct (handles s')"
  using assms
proof (induction evs arbitrary: s)
  case Nil
  then show ?case by simp
next
  case (Cons ev evs)
  from Cons.prems(1) obtain s1 where 1: "step ev s = Inr s1" and 2: "run evs s1 = Inr s'"
    by (auto split: sum.splits)
  from Cons.prems(2) 1 have "arrival_is_new ev s" "arrivals_are_new evs s1" by simp_all
  from distinct_handles_step [OF 1 this(1) Cons.prems(3)] have "distinct (handles s1)" .
  from Cons.IH [OF 2 \<open>arrivals_are_new evs s1\<close> this] show ?case .
qed

lemma arrivals_are_new_take:
  "arrivals_are_new evs s \<Longrightarrow> arrivals_are_new (take k evs) s"
proof (induction evs arbitrary: s k)
  case Nil
  then show ?case by simp
next
  case (Cons ev evs)
  show ?case
  proof (cases k)
    case 0
    then show ?thesis by simp
  next
    case (Suc j)
    with Cons show ?thesis by (auto split: sum.splits)
  qed
qed

lemma example_run:
  "map_sum id (\<lambda>s. map getDevice (mUSBDevices s)) (run (take 3 example_events) example_server) = Inr [8]"
  by code_simp

lemma example_new: "arrivals_are_new example_events example_server"
  by code_simp

text \<open>
  Claim C1, as amended. Start from the new server and take any sequence of hotplug
  callbacks, polls, messages and main loop rounds in which every hotplug arrival is for
  a native device that is not registered at that moment (polls need no such condition:
  they check it themselves). Then after each completed operation of the sequence (that
  is, after every prefix that ends without a fault) no two registered objects have the
  same native device.
\<close>

theorem no_duplicate_handles:
  assumes "arrivals_are_new evs (FCServer_new color devices verbose w)"
    and "run (take k evs) (FCServer_new color devices verbose w) = Inr s"
  shows "distinct (map getDevice (mUSBDevices s))"
proof -
  have "distinct (handles (FCServer_new color devices verbose w :: ('a, 'b) FCServer))"
    by (simp add: handles_def FCServer_new_def)
  from distinct_handles_run [OF assms(2) arrivals_are_new_take [OF assms(1)] this]
  show ?thesis by (simp add: handles_def)
qed

theorem no_duplicate_handles_witness:
  "arrivals_are_new example_events example_server
   \<and> (\<exists>s. run (take 3 example_events) example_server = Inr s
        \<and> map getDevice (mUSBDevices s) = [8]
        \<and> distinct (map getDevice (mUSBDevices s)))"
proof -
  have new: "arrivals_are_new example_events (FCServer_new 0 [10, 20] True False)"
    using example_new by (simp add: example_server_def)
  from example_run obtain s where
    s: "run (take 3 example_events) (FCServer_new 0 [10, 20] True False) = Inr s"
    and h: "map getDevice (mUSBDevices s) = [8]"
    unfolding example_server_def
    by (cases "run (take 3 example_events) (FCServer_new 0 [10, 20] True False :: (nat, nat) FCServer)")
      simp_all
  from no_duplicate_handles [OF new s] s h example_new show ?thesis
    by (simp add: example_server_def)
qed

text \<open>
  Without the condition the claim fails: the hotplug callback does not check whether the
  arriving native device is registered already, so two arrival events for device 7 leave
  two registered objects for it.
\<close>

lemma cbHotplug_arrived:
  "cbHotplug drv device LIBUSB_HOTPLUG_EVENT_DEVICE_ARRIVED s =
     act Unlock (usbDeviceArrived drv device (act Lock s))"
  by (simp add: cbHotplug_def Let_def
      LIBUSB_HOTPLUG_EVENT_DEVICE_ARRIVED_def LIBUSB_HOTPLUG_EVENT_DEVICE_LEFT_def)

theorem duplicate_arrival_counterexample:
  "map_sum id (\<lambda>s. map getDevice (mUSBDevices s))
     (run [Hotplug accept_all 7 LIBUSB_HOTPLUG_EVENT_DEVICE_ARRIVED,
           Hotplug accept_all 7 LIBUSB_HOTPLUG_EVENT_DEVICE_ARRIVED] example_server)
   = Inr [7, 7]"
  by (simp add: cbHotplug_arrived usbDeviceArrived_mUSBDevices usbDeviceArrived_heap_next
      accepted_def accept_all_def probed_driver_def new_dev_def example_server_def
      FCServer_new_def)

subsection \<open>Colour correction happens once, at registration\<close>

lemma registrations_simps [simp]:
  "registrations color [] = []"
  "registrations color (devs @ devs') = registrations color devs @ registrations color devs'"
  "registrations color (dev # devs) =
     WriteColorCorrection dev color # Push_back dev # registrations color devs"
  by (simp_all add: registrations_def)

lemma reg_inv_iff:
  "reg_inv s \<longleftrightarrow>
     registration_calls (actions s) = registrations (mColor s) (pushed (actions s))
     \<and> (\<forall>dev \<in> set (pushed (actions s)). objid dev < heap_next s)
     \<and> distinct (pushed (actions s))
     \<and> set (mUSBDevices s) \<subseteq> set (pushed (actions s))"
  by (auto simp: reg_inv_def list_all_iff)

lemma reg_inv_quiet:
  assumes "reg_inv s" and "actions s' = actions s @ tr"
    and "registration_calls tr = []" and "pushed tr = []"
    and "mColor s' = mColor s" and "heap_next s \<le> heap_next s'"
    and "set (mUSBDevices s') \<subseteq> set (mUSBDevices s)"
  shows "reg_inv s'"
  using assms unfolding reg_inv_iff by (simp only: registration_calls_simps pushed_simps
      append_Nil2) force

lemma reg_inv_act:
  "reg_inv s \<Longrightarrow> registration_calls [a] = [] \<Longrightarrow> pushed [a] = [] \<Longrightarrow> reg_inv (act a s)"
  by (rule reg_inv_quiet [where s = s and s' = "act a s" and tr = "[a]"]) simp_all

lemma reg_inv_usbDeviceArrived:
  assumes "reg_inv s"
  shows "reg_inv (usbDeviceArrived drv device s)"
proof (cases "accepted drv device s")
  case None
  show ?thesis
  proof (rule reg_inv_quiet [OF assms])
    show "actions (usbDeviceArrived drv device s) = actions s @ arrival_actions drv device s"
      by (rule usbDeviceArrived_actions)
    show "registration_calls (arrival_actions drv device s) = []"
      using None by (simp add: arrival_actions_projections)
    show "pushed (arrival_actions drv device s) = []"
      using None by (simp add: arrival_actions_projections)
    show "mColor (usbDeviceArrived drv device s) = mColor s" by simp
    show "heap_next s \<le> heap_next (usbDeviceArrived drv device s)"
      by (simp add: usbDeviceArrived_heap_next split: option.splits)
    show "set (mUSBDevices (usbDeviceArrived drv device s)) \<subseteq> set (mUSBDevices s)"
      using None by (simp add: usbDeviceArrived_mUSBDevices)
  qed
next
  case (Some dev)
  from accepted_Some [OF this] obtain d where
    dev: "objid dev = heap_next s" "probed_driver drv device = Some d" by blast
  from assms dev(1) have fresh: "dev \<notin> set (pushed (actions s))"
    unfolding reg_inv_iff by auto
  from assms Some dev fresh show ?thesis
    unfolding reg_inv_iff
    by (auto simp: usbDeviceArrived_actions usbDeviceArrived_mUSBDevices
        usbDeviceArrived_heap_next arrival_actions_projections less_Suc_eq)
qed

lemma reg_inv_usbDeviceLeft_iter:
  assumes "reg_inv s"
  shows "reg_inv (usbDeviceLeft_iter i s)"
proof (rule reg_inv_quiet [OF assms])
  show "actions (usbDeviceLeft_iter i s) = actions s
      @ (verbose_line (mVerbose s) (Removed (mUSBDevices s ! i))
         @ [Erase (mUSBDevices s ! i), Delete (mUSBDevices s ! i)])"
    by simp
  show "set (mUSBDevices (usbDeviceLeft_iter i s)) \<subseteq> set (mUSBDevices s)"
    using set_take_drop_subset [of i "mUSBDevices s"] by simp
qed simp_all

lemma reg_inv_usbDeviceLeft:
  "reg_inv s \<Longrightarrow> reg_inv (usbDeviceLeft device s)"
  using usbDeviceLeft_cases [of device s] reg_inv_usbDeviceLeft_iter [of s]
  by (metis)

lemma reg_inv_cbMessage: "reg_inv s \<Longrightarrow> reg_inv (cbMessage msg s)"
  by (rule reg_inv_quiet [where s = s and s' = "cbMessage msg s"
        and tr = "Lock # map (\<lambda>dev. WriteMessage dev msg) (mUSBDevices s) @ [Unlock]"])
    simp_all

lemma reg_inv_mainLoop_body: "reg_inv s \<Longrightarrow> reg_inv (mainLoop_body err s)"
  by (rule reg_inv_quiet [where s = s and s' = "mainLoop_body err s"
        and tr = "(if err \<noteq> 0 then [Clog (Error_handling_events err)] else [])
          @ Lock # map Flush (mUSBDevices s) @ [Unlock]"])
    simp_all

lemma reg_inv_added_loop: "reg_inv s \<Longrightarrow> reg_inv (added_loop drv list s)"
proof (induction list arbitrary: s)
  case Nil
  then show ?case by simp
next
  case (Cons item list)
  show ?case
  proof (cases "is_new_loop item (mUSBDevices s) True")
    case True
    from Cons.prems have "reg_inv (usbDeviceArrived drv item s)"
      by (rule reg_inv_usbDeviceArrived)
    then have "reg_inv (added_loop drv list (usbDeviceArrived drv item s))" by (rule Cons.IH)
    with True show ?thesis by simp
  next
    case False
    with Cons.IH [OF Cons.prems] show ?thesis by simp
  qed
qed

lemma reg_inv_removed_loop:
  assumes "removed_loop list i e stale s = Inr s'" and "reg_inv s"
  shows "reg_inv s'"
  using reg_inv_usbDeviceLeft_iter assms
  by (rule removed_loop_preserves [where P = reg_inv])

lemma reg_inv_usbHotplugPoll:
  assumes "usbHotplugPoll drv r s = Inr (b, s')" and "reg_inv s"
  shows "reg_inv s'"
proof (cases r)
  case (LIBUSB_ERROR c)
  with assms(1) have "s' = act (Clog (Error_polling c)) s"
    by (simp add: usbHotplugPoll_def)
  with assms(2) show ?thesis by (simp add: reg_inv_act)
next
  case (Device_list list)
  let ?s2 = "added_loop drv list (act Lock s)"
  from assms(2) have d2: "reg_inv ?s2"
    by (intro reg_inv_added_loop reg_inv_act) simp_all
  show ?thesis
  proof (cases "removed_loop list 0 (length (mUSBDevices ?s2)) [] ?s2")
    case (Inl f)
    with assms(1) Device_list show ?thesis by (simp add: usbHotplugPoll_def Let_def)
  next
    case (Inr s3)
    with assms(1) Device_list have "s' = act Unlock s3"
      by (simp add: usbHotplugPoll_def Let_def)
    moreover from reg_inv_removed_loop [OF Inr d2] have "reg_inv s3" .
    ultimately show ?thesis by (simp add: reg_inv_act)
  qed
qed

lemma reg_inv_cbHotplug: "reg_inv s \<Longrightarrow> reg_inv (cbHotplug drv device event s)"
  unfolding cbHotplug_def Let_def
  by (intro reg_inv_act) (simp_all add: reg_inv_usbDeviceLeft reg_inv_usbDeviceArrived reg_inv_act)

lemma reg_inv_step:
  assumes "step ev s = Inr s'" and "reg_inv s"
  shows "reg_inv s'"
proof (cases ev)
  case (Hotplug drv device event)
  from assms(1) have "s' = cbHotplug drv device event s"
    by (simp only: Hotplug step.simps sum.inject)
  with assms(2) show ?thesis by (simp only: reg_inv_cbHotplug)
next
  case (Message msg)
  from assms(1) have "s' = cbMessage msg s"
    by (simp only: Message step.simps sum.inject)
  with assms(2) show ?thesis by (simp only: reg_inv_cbMessage)
next
  case (Poll drv r)
  from assms(1) have "step (Poll drv r) s = Inr s'" by (simp only: Poll)
  from step_Poll_Inr [OF this] obtain b where "usbHotplugPoll drv r s = Inr (b, s')" by blast
  from reg_inv_usbHotplugPoll [OF this assms(2)] show ?thesis .
next
  case (MainLoop err)
  from assms(1) have "s' = mainLoop_body err s"
    by (simp only: MainLoop step.simps sum.inject)
  with assms(2) show ?thesis by (simp only: reg_inv_mainLoop_body)
qed

lemma reg_inv_run:
  assumes "run evs s = Inr s'" and "reg_inv s"
  shows "reg_inv s'"
  using assms
proof (induction evs arbitrary: s)
  case Nil
  then show ?case by simp
next
  case (Cons ev evs)
  show ?case
  proof (cases "step ev s")
    case (Inl f)
    with Cons.prems(1) show ?thesis by simp
  next
    case (Inr s1)
    with Cons.prems(1) have "run evs s1 = Inr s'" by simp
    moreover from Inr Cons.prems(2) have "reg_inv s1" by (rule reg_inv_step)
    ultimately show ?thesis by (rule Cons.IH)
  qed
qed

lemma reg_inv_new: "reg_inv (FCServer_new color devices verbose w)"
  by (simp add: reg_inv_def FCServer_new_def)

lemma color_corrections_of_simps [simp]:
  "color_corrections_of dev [] = []"
  "color_corrections_of dev (as @ bs) = color_corrections_of dev as @ color_corrections_of dev bs"
  "color_corrections_of dev (WriteColorCorrection d c # as) =
     (if d = dev then [c] else []) @ color_corrections_of dev as"
  "color_corrections_of dev (Push_back d # as) = color_corrections_of dev as"
  by (simp_all add: color_corrections_of_def)

lemma color_corrections_of_registration_calls:
  "color_corrections_of dev (registration_calls as) = color_corrections_of dev as"
proof (induction as)
  case Nil
  then show ?case by simp
next
  case (Cons a as)
  then show ?case by (cases a) (simp_all add: color_corrections_of_def)
qed

lemma color_corrections_of_registrations:
  "distinct devs \<Longrightarrow>
   color_corrections_of dev (registrations color devs) = (if dev \<in> set devs then [color] else [])"
  by (induction devs) auto

lemma mColor_usbDeviceLeft [simp]: "mColor (usbDeviceLeft device s) = mColor s"
  using usbDeviceLeft_cases [of device s] by auto

lemma mColor_added_loop [simp]: "mColor (added_loop drv list s) = mColor s"
  by (induction list arbitrary: s) simp_all

lemma mColor_removed_loop:
  assumes "removed_loop list i e stale s = Inr s'"
  shows "mColor s' = mColor s"
proof -
  have "mColor s' = mColor s"
    by (rule removed_loop_preserves [where P = "\<lambda>t. mColor t = mColor s", OF _ assms]) simp_all
  then show ?thesis .
qed

lemma mColor_usbHotplugPoll:
  assumes "usbHotplugPoll drv r s = Inr (b, s')"
  shows "mColor s' = mColor s"
proof (cases r)
  case (LIBUSB_ERROR c)
  with assms have "s' = act (Clog (Error_polling c)) s" by (simp add: usbHotplugPoll_def)
  then show ?thesis by simp
next
  case (Device_list list)
  let ?s2 = "added_loop drv list (act Lock s)"
  show ?thesis
  proof (cases "removed_loop list 0 (length (mUSBDevices ?s2)) [] ?s2")
    case (Inl f)
    with assms Device_list show ?thesis by (simp add: usbHotplugPoll_def Let_def)
  next
    case (Inr s3)
    with assms Device_list have "s' = act Unlock s3" by (simp add: usbHotplugPoll_def Let_def)
    with mColor_removed_loop [OF Inr] show ?thesis by simp
  qed
qed

lemma mColor_step:
  assumes "step ev s = Inr s'"
  shows "mColor s' = mColor s"
proof (cases ev)
  case (Hotplug drv device event)
  from assms have "s' = cbHotplug drv device event s"
    by (simp only: Hotplug step.simps sum.inject)
  then show ?thesis by (simp add: cbHotplug_def Let_def)
next
  case (Message msg)
  from assms have "s' = cbMessage msg s" by (simp only: Message step.simps sum.inject)
  then show ?thesis by simp
next
  case (Poll drv r)
  from assms have "step (Poll drv r) s = Inr s'" by (simp only: Poll)
  from step_Poll_Inr [OF this] obtain b where "usbHotplugPoll drv r s = Inr (b, s')" by blast
  then show ?thesis by (rule mColor_usbHotplugPoll)
next
  case (MainLoop err)
  from assms have "s' = mainLoop_body err s" by (simp only: MainLoop step.simps sum.inject)
  then show ?thesis by simp
qed

lemma mColor_run:
  assumes "run evs s = Inr s'"
  shows "mColor s' = mColor s"
  using assms
proof (induction evs arbitrary: s)
  case Nil
  then show ?case by simp
next
  case (Cons ev evs)
  show ?case
  proof (cases "step ev s")
    case (Inl f)
    with Cons.prems show ?thesis by simp
  next
    case (Inr s1)
    with Cons.prems have "run evs s1 = Inr s'" by simp
    from Cons.IH [OF this] mColor_step [OF Inr] show ?thesis by simp
  qed
qed

lemma example_run_all:
  "map_sum id (\<lambda>s. (mUSBDevices s, pushed (actions s), registration_calls (actions s)))
     (run example_events example_server)
   = Inr ([dev_at 1 8], [dev_at 0 7, dev_at 1 8],
       [WriteColorCorrection (dev_at 0 7) 0, Push_back (dev_at 0 7),
        WriteColorCorrection (dev_at 1 8) 0, Push_back (dev_at 1 8)])"
  by code_simp

text \<open>
  Claim C7. In every run of the server from its construction, the calls of
  \<^verbatim>\<open>writeColorCorrection\<close> and the \<^verbatim>\<open>push_back\<close>s come in pairs: for each object that
  is appended to the vector, once, the colour correction with \<^verbatim>\<open>mColor\<close> and then
  its \<^verbatim>\<open>push_back\<close>, the appended objects being pairwise different. So an object that
  is or ever was in the vector has received exactly one colour correction, before it was
  appended, and an object that was never appended has received none.
\<close>

theorem color_correction_once:
  assumes "run evs (FCServer_new color devices verbose w) = Inr s"
  shows "registration_calls (actions s) = registrations color (pushed (actions s))
     \<and> distinct (pushed (actions s))
     \<and> set (mUSBDevices s) \<subseteq> set (pushed (actions s))
     \<and> (\<forall>dev. color_corrections_of dev (actions s) =
           (if dev \<in> set (pushed (actions s)) then [color] else []))"
proof -
  from reg_inv_run [OF assms reg_inv_new] have inv: "reg_inv s" .
  from mColor_run [OF assms] have c: "mColor s = color" by (simp add: FCServer_new_def)
  from inv c have 1: "registration_calls (actions s) = registrations color (pushed (actions s))"
    and 2: "distinct (pushed (actions s))"
    and 3: "set (mUSBDevices s) \<subseteq> set (pushed (actions s))"
    by (simp_all add: reg_inv_iff)
  have 4: "color_corrections_of dev (actions s) =
      (if dev \<in> set (pushed (actions s)) then [color] else [])" for dev
  proof -
    have "color_corrections_of dev (actions s) =
        color_corrections_of dev (registration_calls (actions s))"
      by (simp only: color_corrections_of_registration_calls)
    also have "\<dots> = (if dev \<in> set (pushed (actions s)) then [color] else [])"
      unfolding 1 using 2 by (rule color_corrections_of_registrations)
    finally show ?thesis .
  qed
  from 1 2 3 4 show ?thesis by blast
qed

theorem color_correction_once_witness:
  "\<exists>s. run example_events example_server = Inr s
     \<and> mUSBDevices s = [dev_at 1 8]
     \<and> pushed (actions s) = [dev_at 0 7, dev_at 1 8]
     \<and> registration_calls (actions s) =
         [WriteColorCorrection (dev_at 0 7) 0, Push_back (dev_at 0 7),
          WriteColorCorrection (dev_at 1 8) 0, Push_back (dev_at 1 8)]
     \<and> color_corrections_of (dev_at 0 7) (actions s) = [0]
     \<and> color_corrections_of (dev_at 1 8) (actions s) = [0]
     \<and> color_corrections_of (dev_at 2 9) (actions s) = []"
proof -
  from example_run_all obtain s where
    s: "run example_events (FCServer_new 0 [10, 20] True False) = Inr s"
    and r: "mUSBDevices s = [dev_at 1 8]" "pushed (actions s) = [dev_at 0 7, dev_at 1 8]"
    unfolding example_server_def
    by (cases "run example_events (FCServer_new 0 [10, 20] True False :: (nat, nat) FCServer)")
      simp_all
  from color_correction_once [OF s] r s show ?thesis
    by (simp add: example_server_def dev_at_def)
qed

subsection \<open>The polling thread\<close>

lemma usbHotplugPoll_result:
  assumes "usbHotplugPoll drv r s = Inr (b, s')"
  shows "b \<longleftrightarrow> \<not> enumeration_failed r"
proof (cases r)
  case (LIBUSB_ERROR c)
  with assms show ?thesis by (simp add: usbHotplugPoll_def enumeration_failed_def)
next
  case (Device_list list)
  let ?s2 = "added_loop drv list (act Lock s)"
  show ?thesis
  proof (cases "removed_loop list 0 (length (mUSBDevices ?s2)) [] ?s2")
    case (Inl f)
    with assms Device_list show ?thesis by (simp add: usbHotplugPoll_def Let_def)
  next
    case (Inr s3)
    with assms Device_list show ?thesis
      by (simp add: usbHotplugPoll_def Let_def enumeration_failed_def)
  qed
qed

lemma usbHotplugPoll_failed:
  "usbHotplugPoll drv (LIBUSB_ERROR c) s = Inr (False, act (Clog (Error_polling c)) s)"
  by (simp add: usbHotplugPoll_def)

lemma thread_stops:
  assumes "snd (env k) = LIBUSB_ERROR c"
  shows "usbHotplugThreadFunc env k s = Some (Inr (act (Clog (Error_polling c)) s))"
  by (subst usbHotplugThreadFunc.simps) (simp add: assms usbHotplugPoll_failed)

lemma thread_continues:
  assumes "usbHotplugPoll (fst (env k)) (snd (env k)) s = Inr (True, s')"
  shows "usbHotplugThreadFunc env k s = usbHotplugThreadFunc env (Suc k) (act (Sleep_for 1) s')"
  by (subst usbHotplugThreadFunc.simps) (simp add: assms)

lemma thread_faults:
  assumes "usbHotplugPoll (fst (env k)) (snd (env k)) s = Inl f"
  shows "usbHotplugThreadFunc env k s = Some (Inl f)"
  by (subst usbHotplugThreadFunc.simps) (simp add: assms)

lemma thread_returns_only_on_failure:
  assumes "usbHotplugThreadFunc env k s = Some y"
  shows "\<forall>s'. y = Inr s' \<longrightarrow> (\<exists>j \<ge> k. enumeration_failed (snd (env j)))"
proof (rule usbHotplugThreadFunc.raw_induct
    [where P = "\<lambda>env k s y. \<forall>s'. y = Inr s' \<longrightarrow> (\<exists>j \<ge> k. enumeration_failed (snd (env j)))",
      OF _ assms])
  fix loop :: "(nat \<Rightarrow> 'a drivers \<times> get_device_list) \<Rightarrow> nat \<Rightarrow> ('a, 'b) FCServer
      \<Rightarrow> (fault + ('a, 'b) FCServer) option"
    and env k s y
  assume IH: "\<And>env k s y. loop env k s = Some y \<Longrightarrow>
      \<forall>s'. y = Inr s' \<longrightarrow> (\<exists>j \<ge> k. enumeration_failed (snd (env j)))"
    and body: "(case usbHotplugPoll (fst (env k)) (snd (env k)) s of
        Inl f \<Rightarrow> Some (Inl f)
      | Inr (continue, s') \<Rightarrow>
          if continue then loop env (Suc k) (act (Sleep_for 1) s') else Some (Inr s')) = Some y"
  show "\<forall>s'. y = Inr s' \<longrightarrow> (\<exists>j \<ge> k. enumeration_failed (snd (env j)))"
  proof (cases "usbHotplugPoll (fst (env k)) (snd (env k)) s")
    case (Inl f)
    with body show ?thesis by auto
  next
    case (Inr p)
    obtain b s1 where p: "p = (b, s1)" by (cases p)
    show ?thesis
    proof (cases b)
      case True
      with body Inr p have "loop env (Suc k) (act (Sleep_for 1) s1) = Some y" by simp
      from IH [OF this] show ?thesis using Suc_leD by blast
    next
      case False
      from Inr p have "usbHotplugPoll (fst (env k)) (snd (env k)) s = Inr (b, s1)" by simp
      from usbHotplugPoll_result [OF this] False have "enumeration_failed (snd (env k))" by simp
      then show ?thesis by blast
    qed
  qed
qed

lemma thread_terminates_on_failure:
  assumes "k \<le> j" and "enumeration_failed (snd (env j))"
  shows "usbHotplugThreadFunc env k s \<noteq> None"
  using assms
proof (induction "j - k" arbitrary: k s)
  case 0
  then have "k = j" by simp
  with "0.prems"(2) obtain c where "snd (env k) = LIBUSB_ERROR c"
    by (auto simp: enumeration_failed_def split: get_device_list.splits)
  from thread_stops [of env k c s, OF this] show ?case by simp
next
  case (Suc n)
  show ?case
  proof (cases "usbHotplugPoll (fst (env k)) (snd (env k)) s")
    case (Inl f)
    from thread_faults [of env k s f, OF this] show ?thesis by simp
  next
    case (Inr p)
    obtain b s1 where p: "p = (b, s1)" by (cases p)
    show ?thesis
    proof (cases b)
      case True
      with Inr p have "usbHotplugPoll (fst (env k)) (snd (env k)) s = Inr (True, s1)" by simp
      from thread_continues [of env k s s1, OF this]
      have "usbHotplugThreadFunc env k s = usbHotplugThreadFunc env (Suc k) (act (Sleep_for 1) s1)" .
      moreover have "usbHotplugThreadFunc env (Suc k) (act (Sleep_for 1) s1) \<noteq> None"
      proof (rule Suc.hyps(1))
        show "n = j - Suc k" using Suc.hyps(2) by simp
        show "Suc k \<le> j" using Suc.hyps(2) by simp
        show "enumeration_failed (snd (env j))" by (rule Suc.prems(2))
      qed
      ultimately show ?thesis by simp
    next
      case False
      from Inr p have r: "usbHotplugPoll (fst (env k)) (snd (env k)) s = Inr (b, s1)" by simp
      from usbHotplugPoll_result [OF r] False obtain c where "snd (env k) = LIBUSB_ERROR c"
        by (auto simp: enumeration_failed_def split: get_device_list.splits)
      from thread_stops [of env k c s, OF this] show ?thesis by simp
    qed
  qed
qed

lemma example_poll:
  "map_sum id fst (usbHotplugPoll (fst (example_env 0)) (snd (example_env 0)) example_server)
     = Inr True"
  by code_simp

text \<open>
  Claim C9. The loop of \<^verbatim>\<open>usbHotplugThreadFunc\<close>, entered at its \<open>k\<close>-th poll: a poll
  whose enumeration fails ends the loop there, with the error logged; after a poll that
  returns true the loop sleeps a second and goes on with the next poll; a poll returns
  true exactly when its enumeration did not fail. Hence the loop returns only if some
  enumeration fails, and if some enumeration fails the loop does not run for ever (it
  returns at the first failure, unless the removal loop of an earlier poll has faulted).
\<close>

theorem usbHotplugThreadFunc_ends_on_failure:
  "(\<forall>c. snd (env k) = LIBUSB_ERROR c \<longrightarrow>
      usbHotplugThreadFunc env k s = Some (Inr (act (Clog (Error_polling c)) s)))
   \<and> (\<forall>s'. usbHotplugPoll (fst (env k)) (snd (env k)) s = Inr (True, s') \<longrightarrow>
      usbHotplugThreadFunc env k s = usbHotplugThreadFunc env (Suc k) (act (Sleep_for 1) s'))
   \<and> (\<forall>b s'. usbHotplugPoll (fst (env k)) (snd (env k)) s = Inr (b, s') \<longrightarrow>
      (b \<longleftrightarrow> \<not> enumeration_failed (snd (env k))))
   \<and> ((\<exists>s'. usbHotplugThreadFunc env k s = Some (Inr s')) \<longrightarrow>
      (\<exists>j \<ge> k. enumeration_failed (snd (env j))))
   \<and> ((\<exists>j \<ge> k. enumeration_failed (snd (env j))) \<longrightarrow>
      usbHotplugThreadFunc env k s \<noteq> None)"
proof (intro conjI allI impI)
  fix c assume "snd (env k) = LIBUSB_ERROR c"
  then show "usbHotplugThreadFunc env k s = Some (Inr (act (Clog (Error_polling c)) s))"
    by (rule thread_stops)
next
  fix s' assume "usbHotplugPoll (fst (env k)) (snd (env k)) s = Inr (True, s')"
  then show "usbHotplugThreadFunc env k s =
      usbHotplugThreadFunc env (Suc k) (act (Sleep_for 1) s')"
    by (rule thread_continues)
next
  fix b s' assume "usbHotplugPoll (fst (env k)) (snd (env k)) s = Inr (b, s')"
  then show "b \<longleftrightarrow> \<not> enumeration_failed (snd (env k))"
    by (rule usbHotplugPoll_result)
next
  assume "\<exists>s'. usbHotplugThreadFunc env k s = Some (Inr s')"
  then obtain s' where "usbHotplugThreadFunc env k s = Some (Inr s')" ..
  from thread_returns_only_on_failure [OF this]
  show "\<exists>j \<ge> k. enumeration_failed (snd (env j))" by simp
next
  assume "\<exists>j \<ge> k. enumeration_failed (snd (env j))"
  then obtain j where "k \<le> j" "enumeration_failed (snd (env j))" by blast
  then show "usbHotplugThreadFunc env k s \<noteq> None"
    by (rule thread_terminates_on_failure)
qed

theorem usbHotplugThreadFunc_ends_on_failure_witness:
  "usbHotplugThreadFunc example_env 2 example_server
     = Some (Inr (act (Clog (Error_polling (- 1))) example_server))
   \<and> enumeration_failed (snd (example_env 2))
   \<and> usbHotplugThreadFunc example_env 0 example_server \<noteq> None
   \<and> (\<exists>s'. usbHotplugPoll (fst (example_env 0)) (snd (example_env 0)) example_server
          = Inr (True, s')
        \<and> usbHotplugThreadFunc example_env 0 example_server
          = usbHotplugThreadFunc example_env 1 (act (Sleep_for 1) s'))"
proof -
  have f: "snd (example_env 2) = LIBUSB_ERROR (- 1)" by (simp add: example_env_def)
  then have e: "enumeration_failed (snd (example_env 2))" by (simp add: enumeration_failed_def)
  then have ex: "\<exists>j \<ge> 0. enumeration_failed (snd (example_env j))" by blast
  from usbHotplugThreadFunc_ends_on_failure [of example_env 2 example_server] f
  have 1: "usbHotplugThreadFunc example_env 2 example_server
     = Some (Inr (act (Clog (Error_polling (- 1))) example_server))" by blast
  from usbHotplugThreadFunc_ends_on_failure [of example_env 0 example_server] ex
  have 2: "usbHotplugThreadFunc example_env 0 example_server \<noteq> None" by blast
  from example_poll obtain s' where
    p: "usbHotplugPoll (fst (example_env 0)) (snd (example_env 0)) example_server = Inr (True, s')"
    by (cases "usbHotplugPoll (fst (example_env 0)) (snd (example_env 0)) example_server")
      auto
  with usbHotplugThreadFunc_ends_on_failure [of example_env 0 example_server]
  have 3: "usbHotplugThreadFunc example_env 0 example_server
      = usbHotplugThreadFunc example_env 1 (act (Sleep_for 1) s')" by simp
  from 1 e 2 3 p show ?thesis by blast
qed

end
